theory Spec2Isabelle
  imports Complex_Main "HOL-Library.Char_ord" "HOL-Library.List_Lexorder"
    "HOL-Library.Multiset"
begin

section \<open>Encoding tiers and the tier classifier (src/app.py, CRFWithVBVCompressor)\<close>

text \<open>
  A tier is the Python dict with the keys crf, vbv_maxrate, vbv_bufsize, preset,
  audio_bitrate and description. The rate fields are strings such as 1200k, as in
  the source.
\<close>

record tier =
  crf :: int
  vbv_maxrate :: string
  vbv_bufsize :: string
  preset :: string
  audio_bitrate :: string
  description :: string

definition tier_conservative :: tier where
  "tier_conservative = \<lparr> crf = 35, vbv_maxrate = ''1200k'', vbv_bufsize = ''2400k'',
     preset = ''faster'', audio_bitrate = ''64k'',
     description = ''Smaller file, fast processing'' \<rparr>"

definition tier_conservative_42 :: tier where
  "tier_conservative_42 = \<lparr> crf = 42, vbv_maxrate = ''700k'', vbv_bufsize = ''1400k'',
     preset = ''ultrafast'', audio_bitrate = ''32k'',
     description = ''Ukuran super kecil, artefak terlihat, proses sangat cepat'' \<rparr>"

definition tier_balanced :: tier where
  "tier_balanced = \<lparr> crf = 38, vbv_maxrate = ''1000k'', vbv_bufsize = ''2000k'',
     preset = ''veryfast'', audio_bitrate = ''48k'',
     description = ''Minimum file size, fastest processing'' \<rparr>"

definition tier_aggressive :: tier where
  "tier_aggressive = \<lparr> crf = 35, vbv_maxrate = ''1200k'', vbv_bufsize = ''2400k'',
     preset = ''faster'', audio_bitrate = ''64k'',
     description = ''Smaller file, fast processing'' \<rparr>"

definition tier_maximum :: tier where
  "tier_maximum = \<lparr> crf = 38, vbv_maxrate = ''1000k'', vbv_bufsize = ''2000k'',
     preset = ''veryfast'', audio_bitrate = ''48k'',
     description = ''Minimum file size, fastest processing'' \<rparr>"

definition tier_ultrafast_mode :: tier where
  "tier_ultrafast_mode = \<lparr> crf = 33, vbv_maxrate = ''2000k'', vbv_bufsize = ''4000k'',
     preset = ''ultrafast'', audio_bitrate = ''48k'',
     description = ''Maximum speed, acceptable quality'' \<rparr>"

text \<open>
  The catalog \<open>self.compression_tiers\<close>: a dict, kept as an association list in
  insertion order, which is the order Python iterates it in.
\<close>

definition compression_tiers :: "(string \<times> tier) list" where
  "compression_tiers =
    [(''conservative'', tier_conservative),
     (''conservative-42'', tier_conservative_42),
     (''balanced'', tier_balanced),
     (''aggressive'', tier_aggressive),
     (''maximum'', tier_maximum),
     (''ultrafast_mode'', tier_ultrafast_mode)]"

text \<open>
  The result of \<open>analyze_video_for_vbv\<close>. Python floats are read as rationals: the
  classifier only compares them with constants, and every float is a rational.
\<close>

record video_info =
  width :: int
  height :: int
  duration :: rat
  frame_rate :: rat
  current_bitrate :: rat
  file_size_mb :: rat
  pixel_count :: int
  pixels_per_second :: rat
  bitrate_per_pixel :: rat
  codec :: string

text \<open>
  \<open>determine_compression_tier(video_info, target_reduction, speed_priority)\<close>.
  An absent \<open>video_info\<close> (None, the probe failed) is \<open>None\<close>. The two
  "already well compressed" branches copy the conservative tier and overwrite fields.
\<close>

definition determine_compression_tier :: "video_info option \<Rightarrow> rat \<Rightarrow> bool \<Rightarrow> tier" where
  "determine_compression_tier video_info target_reduction speed_priority =
    (case video_info of
       None \<Rightarrow> (if speed_priority then tier_ultrafast_mode else tier_balanced)
     | Some vi \<Rightarrow>
        if speed_priority \<and> file_size_mb vi > 300 then tier_ultrafast_mode
        else if current_bitrate vi > 5000 then
          (if speed_priority then tier_ultrafast_mode
           else if target_reduction > 8 / 10 then tier_maximum
           else if target_reduction > 6 / 10 then tier_aggressive
           else tier_balanced)
        else if current_bitrate vi > 2500 then
          (if speed_priority then tier_ultrafast_mode
           else if target_reduction > 7 / 10 then tier_aggressive
           else if target_reduction > 5 / 10 then tier_balanced
           else tier_conservative)
        else if current_bitrate vi > 1500 then
          (if target_reduction > 6 / 10 then tier_balanced
           else if target_reduction > 4 / 10 then tier_conservative
           else tier_conservative \<lparr> crf := 27 \<rparr>)
        else
          (if target_reduction > 5 / 10 then tier_conservative
           else tier_conservative \<lparr> crf := 22, vbv_maxrate := ''2500k'',
                  vbv_bufsize := ''5000k'' \<rparr>))"

text \<open>
  \<open>_get_tier_name(settings)\<close>: the loop over \<open>self.compression_tiers.items()\<close>
  returns the name of the first entry whose crf equals the settings' crf, and
  \<open>custom\<close> when the loop ends without a match.
\<close>

fun tier_name_loop :: "(string \<times> tier) list \<Rightarrow> tier \<Rightarrow> string" where
  "tier_name_loop [] settings = ''custom''"
| "tier_name_loop ((name, tier_settings) # rest) settings =
     (if crf tier_settings = crf settings then name else tier_name_loop rest settings)"

definition get_tier_name :: "tier \<Rightarrow> string" where
  "get_tier_name settings = tier_name_loop compression_tiers settings"

section \<open>The round-robin scheduler (src/app.py, \<open>_organize_files_round_robin\<close>)\<close>

text \<open>
  \<open>filepath.split('/')\<close>: the parts between separators; \<open>cur\<close> is the part read
  so far. An empty string gives one empty part, as in Python.
\<close>

fun split_acc :: "char \<Rightarrow> string \<Rightarrow> string \<Rightarrow> string list" where
  "split_acc sep cur [] = [cur]"
| "split_acc sep cur (c # cs) =
     (if c = sep then cur # split_acc sep [] cs else split_acc sep (cur @ [c]) cs)"

definition split_on :: "char \<Rightarrow> string \<Rightarrow> string list" where
  "split_on sep s = split_acc sep [] s"

definition startswith :: "string \<Rightarrow> string \<Rightarrow> bool" where
  "startswith s p = (take (length p) s = p)"

text \<open>
  The inner loop over \<open>parts\<close>: the first part that starts with 192.168.1., or
  \<open>None\<close> when the loop ends with \<open>camera_folder\<close> still None.
\<close>

definition camera_folder_of :: "string \<Rightarrow> string option" where
  "camera_folder_of filepath =
     find (\<lambda>part. startswith part ''192.168.1.'') (split_on CHR ''/'' filepath)"

text \<open>
  \<open>camera_files\<close> is a dict from folder to file list, kept as an association list in
  insertion order. \<open>dict_get\<close> reads \<open>camera_files[camera]\<close>; the source only reads
  keys it has taken from the dict itself (lemmas \<open>keys_for_each_camera\<close> and
  \<open>set_reorder_cameras\<close>), so the KeyError of a missing key cannot arise, and the model
  gives the empty list there. \<open>dict_set\<close> is the assignment \<open>camera_files[camera] = v\<close>.
\<close>

type_synonym camera_dict = "(string \<times> string list) list"

definition dict_get :: "camera_dict \<Rightarrow> string \<Rightarrow> string list" where
  "dict_get d k = (case map_of d k of Some v \<Rightarrow> v | None \<Rightarrow> [])"

fun dict_set :: "camera_dict \<Rightarrow> string \<Rightarrow> string list \<Rightarrow> camera_dict" where
  "dict_set [] k v = [(k, v)]"
| "dict_set ((k', v') # d) k v =
     (if k' = k then (k, v) # d else (k', v') # dict_set d k v)"

text \<open>The body of the grouping loop for one \<open>filepath\<close>.\<close>

definition group_file :: "camera_dict \<Rightarrow> string \<Rightarrow> camera_dict" where
  "group_file camera_files filepath =
     (case camera_folder_of filepath of
        None \<Rightarrow> camera_files
      | Some camera_folder \<Rightarrow>
          if camera_folder = [] then camera_files
          else
            let camera_files1 =
              (if map_of camera_files camera_folder = None
               then dict_set camera_files camera_folder [] else camera_files)
            in dict_set camera_files1 camera_folder
                 (dict_get camera_files1 camera_folder @ [filepath]))"

definition group_files :: "string list \<Rightarrow> camera_dict" where
  "group_files file_list = foldl group_file [] file_list"

text \<open>\<open>sorted_cameras.index(start_camera)\<close>, for a list that contains it.\<close>

fun index_of :: "string list \<Rightarrow> string \<Rightarrow> nat" where
  "index_of [] x = 0"
| "index_of (y # ys) x = (if y = x then 0 else Suc (index_of ys x))"

text \<open>
  The reordering to start after \<open>start_camera\<close>. The test \<open>if start_camera and ...\<close>
  is false for None and for the empty string.
\<close>

definition reorder_cameras :: "string list \<Rightarrow> string option \<Rightarrow> string list" where
  "reorder_cameras sorted_cameras start_camera =
     (case start_camera of
        None \<Rightarrow> sorted_cameras
      | Some sc \<Rightarrow>
          if sc \<noteq> [] \<and> sc \<in> set sorted_cameras then
            let start_idx = index_of sorted_cameras sc;
                next_idx = (start_idx + 1) mod length sorted_cameras
            in drop next_idx sorted_cameras @ take next_idx sorted_cameras
          else sorted_cameras)"

text \<open>
  The inner \<open>for camera in sorted_cameras\<close> of one round: a folder that still has files
  gives up to \<open>batch_size\<close> of them. The batch size is a count (the only caller passes
  3), hence a natural number.
\<close>

fun for_each_camera ::
  "nat \<Rightarrow> string list \<Rightarrow> camera_dict \<Rightarrow> string list \<Rightarrow> camera_dict \<times> string list" where
  "for_each_camera batch_size [] camera_files round_robin_list =
     (camera_files, round_robin_list)"
| "for_each_camera batch_size (camera # rest) camera_files round_robin_list =
     (if length (dict_get camera_files camera) > 0 then
        let batch = take batch_size (dict_get camera_files camera)
        in for_each_camera batch_size rest
             (dict_set camera_files camera (drop batch_size (dict_get camera_files camera)))
             (round_robin_list @ batch)
      else for_each_camera batch_size rest camera_files round_robin_list)"

definition max_iterations :: nat where
  "max_iterations = 10000"

text \<open>
  The \<open>while\<close> loop: it runs while some folder still has files and fewer than
  \<open>max_iterations\<close> rounds have been made.
\<close>

function round_robin_while ::
  "nat \<Rightarrow> string list \<Rightarrow> camera_dict \<Rightarrow> string list \<Rightarrow> nat \<Rightarrow> string list" where
  "round_robin_while batch_size sorted_cameras camera_files round_robin_list iteration =
     (if (\<exists>files \<in> set (map snd camera_files). length files > 0)
         \<and> iteration < max_iterations then
        (case for_each_camera batch_size sorted_cameras camera_files round_robin_list of
           (camera_files', round_robin_list') \<Rightarrow>
             round_robin_while batch_size sorted_cameras camera_files' round_robin_list'
               (iteration + 1))
      else round_robin_list)"
  by pat_completeness auto
termination
  by (relation "measure (\<lambda>(b, cams, cf, rl, it). max_iterations - it)") auto

text \<open>
  \<open>_organize_files_round_robin(file_list, batch_size, start_camera)\<close>. The assignment
  to \<open>self.camera_order\<close> and the log line do not bear on the returned list and are
  left out.
\<close>

definition organize_files_round_robin ::
  "string list \<Rightarrow> nat \<Rightarrow> string option \<Rightarrow> string list" where
  "organize_files_round_robin file_list batch_size start_camera =
     (let camera_files = group_files file_list;
          sorted_cameras = sort (map fst camera_files);
          sorted_cameras = reorder_cameras sorted_cameras start_camera
      in round_robin_while batch_size sorted_cameras camera_files [] 0)"

text \<open>
  The number of files of folder \<open>camera\<close> in a list of paths: applied to a prefix of
  the produced order it is the number of files of that folder dispatched so far, applied
  to the input list it is the size of the folder's queue.
\<close>

definition files_of_camera :: "string \<Rightarrow> string list \<Rightarrow> nat" where
  "files_of_camera camera paths =
     length (filter (\<lambda>f. camera_folder_of f = Some camera) paths)"

text \<open>
  The invariant of the scheduling loop: the folder order has no repetition, every
  folder with files left is in the order, and each queue holds files of its own folder.
\<close>

definition rr_inv :: "string list \<Rightarrow> camera_dict \<Rightarrow> bool" where
  "rr_inv cams cf \<longleftrightarrow>
     distinct cams \<and> (\<forall>c. dict_get cf c \<noteq> [] \<longrightarrow> c \<in> set cams) \<and>
     (\<forall>c. \<forall>f \<in> set (dict_get cf c). camera_folder_of f = Some c)"

text \<open>
  A folder with 30001 pending files, with distinct names, for evaluating the iteration
  cap at batch size 3.
\<close>

definition camera_path :: "nat \<Rightarrow> string" where
  "camera_path n = ''192.168.1.5/'' @ replicate n CHR ''a''"

definition large_folder :: "string list" where
  "large_folder = map camera_path [0..<30001]"

text \<open>
  A probe result for a 640x480 clip of one minute with the given bitrate (kbps), used
  to evaluate the classifier on concrete inputs.
\<close>

definition sample_info :: "rat \<Rightarrow> video_info" where
  "sample_info b = \<lparr> width = 640, height = 480, duration = 60, frame_rate = 25,
     current_bitrate = b, file_size_mb = 7, pixel_count = 307200,
     pixels_per_second = 7680000, bitrate_per_pixel = b / 307200, codec = ''h264'' \<rparr>"

section \<open>Scan strategy (src/app.py, \<open>processing_loop\<close> and \<open>scan_for_new_files\<close>)\<close>

text \<open>
  The part of the orchestrator's state that the choice of scan strategy reads:
  \<open>self.last_full_scan_time\<close> (0 until a full scan has stamped it),
  \<open>self.full_scan_interval\<close> (set to 600 in the constructor and never changed) and the
  loop's local \<open>scan_counter\<close>. Clock readings (\<open>time.time()\<close>) are rationals; the
  differences taken here are of two clock readings, or of a reading and 0.
\<close>

record scan_state =
  last_full_scan_time :: rat
  full_scan_interval :: rat
  scan_counter :: nat

definition initial_scan_state :: scan_state where
  "initial_scan_state =
     \<lparr> last_full_scan_time = 0, full_scan_interval = 600, scan_counter = 0 \<rparr>"

text \<open>
  \<open>force_full\<close> as \<open>processing_loop\<close> computes it at the top of a cycle, with
  \<open>now\<close> the clock reading taken there.
\<close>

definition force_full :: "scan_state \<Rightarrow> rat \<Rightarrow> bool" where
  "force_full st now =
     (let time_since_full = now - last_full_scan_time st
      in last_full_scan_time st = 0 \<or> scan_counter st mod 50 = 0 \<or> time_since_full > 600)"

text \<open>
  \<open>should_full_scan\<close> as \<open>scan_for_new_files\<close> computes it, with \<open>current_time\<close>
  its own, later clock reading.
\<close>

definition should_full_scan :: "scan_state \<Rightarrow> bool \<Rightarrow> rat \<Rightarrow> bool" where
  "should_full_scan st force_full_scan current_time =
     (let time_since_full_scan = current_time - last_full_scan_time st
      in force_full_scan \<or> last_full_scan_time st = 0 \<or>
         time_since_full_scan > full_scan_interval st)"

datatype scan = Full_scan | Incremental_scan

text \<open>
  \<open>_incremental_scan\<close>, as far as the strategy goes: when listing the source folder
  raises, it returns the result of \<open>_full_directory_scan\<close>. \<open>listing_ok\<close> says
  whether \<open>os.listdir(config['source'])\<close> succeeds. The result is the list of scans
  run, in order, and the state; \<open>_full_directory_scan\<close> stamps
  \<open>last_full_scan_time\<close> with the \<open>current_time\<close> it is given.
\<close>

definition full_directory_scan :: "scan_state \<Rightarrow> rat \<Rightarrow> scan list \<times> scan_state" where
  "full_directory_scan st current_time =
     ([Full_scan], st \<lparr> last_full_scan_time := current_time \<rparr>)"

definition incremental_scan :: "scan_state \<Rightarrow> rat \<Rightarrow> bool \<Rightarrow> scan list \<times> scan_state" where
  "incremental_scan st current_time listing_ok =
     (if listing_ok then ([Incremental_scan], st)
      else (case full_directory_scan st current_time of
              (scans, st') \<Rightarrow> (Incremental_scan # scans, st')))"

definition scan_for_new_files ::
  "scan_state \<Rightarrow> bool \<Rightarrow> rat \<Rightarrow> bool \<Rightarrow> scan list \<times> scan_state" where
  "scan_for_new_files st force_full_scan current_time listing_ok =
     (if should_full_scan st force_full_scan current_time
      then full_directory_scan st current_time
      else incremental_scan st current_time listing_ok)"

text \<open>
  One scan cycle of \<open>processing_loop\<close>: the decision, the scan, and
  \<open>scan_counter += 1\<close>. \<open>now\<close> is the loop's clock reading and \<open>current_time\<close>
  the scanner's.
\<close>

definition scan_cycle :: "scan_state \<Rightarrow> rat \<Rightarrow> rat \<Rightarrow> bool \<Rightarrow> scan list \<times> scan_state" where
  "scan_cycle st now current_time listing_ok =
     (case scan_for_new_files st (force_full st now) current_time listing_ok of
        (scans, st') \<Rightarrow> (scans, st' \<lparr> scan_counter := scan_counter st' + 1 \<rparr>))"

text \<open>The first scan run in a cycle is the strategy the orchestrator chose.\<close>

definition chosen_strategy :: "scan_state \<Rightarrow> rat \<Rightarrow> rat \<Rightarrow> bool \<Rightarrow> scan" where
  "chosen_strategy st now current_time listing_ok =
     hd (fst (scan_cycle st now current_time listing_ok))"

section \<open>Python floats (IEEE 754 doubles)\<close>

text \<open>
  A Python float is a double: a binary number with 53 significant bits and an exponent
  range that ends with the subnormal numbers, the multiples of \<open>2 ^ -1074\<close>. A
  finite double is modelled as the rational it denotes. Every arithmetic operation
  gives the exact result rounded to the nearest double, ties to the one with an even
  significand, and a decimal literal denotes the double nearest to it. Infinities and
  nan are not modelled: a result beyond the largest double does not arise from CPU
  loads, clock readings and bit rates.
\<close>

definition pow2 :: "int \<Rightarrow> rat" where
  "pow2 e = (if e \<ge> 0 then 2 ^ nat e else 1 / 2 ^ nat (- e))"

text \<open>The number of binary digits of a positive integer (\<open>int.bit_length()\<close>).\<close>

function bit_length :: "int \<Rightarrow> int" where
  "bit_length n = (if n \<le> 0 then 0 else 1 + bit_length (n div 2))"
  by pat_completeness auto
termination
  by (relation "measure nat") auto

text \<open>The \<open>e\<close> with \<open>2 ^ e \<le> x < 2 ^ (e + 1)\<close>, for a positive \<open>x\<close>.\<close>

definition binary_exponent :: "rat \<Rightarrow> int" where
  "binary_exponent x =
     (let (n, d) = quotient_of x;
          e = bit_length n - bit_length d
      in if x < pow2 e then e - 1 else e)"

definition round_half_even :: "rat \<Rightarrow> int" where
  "round_half_even x =
     (let f = \<lfloor>x\<rfloor>; d = x - of_int f
      in if d < 1 / 2 then f else if d > 1 / 2 then f + 1
         else if even f then f else f + 1)"

definition round_to_double :: "rat \<Rightarrow> rat" where
  "round_to_double x =
     (if x = 0 then 0
      else let q = pow2 (max (binary_exponent \<bar>x\<bar> - 52) (- 1074))
           in of_int (round_half_even (x / q)) * q)"

definition fmul :: "rat \<Rightarrow> rat \<Rightarrow> rat" where
  "fmul a b = round_to_double (a * b)"

definition fadd :: "rat \<Rightarrow> rat \<Rightarrow> rat" where
  "fadd a b = round_to_double (a + b)"

definition fsub :: "rat \<Rightarrow> rat \<Rightarrow> rat" where
  "fsub a b = round_to_double (a - b)"


section \<open>The CPU throttle controller (src/app.py, \<open>_cpu_throttle_worker\<close>)\<close>

text \<open>
  The worker's local state: \<open>ema\<close> (None before the first sample), \<open>state\<close>
  (the strings on and off: the encoder runs or is suspended) and \<open>last_switch\<close>.
  The load samples, the average, the ceiling and the clock readings are floats, and the
  arithmetic on them is the float arithmetic of the source.
\<close>

datatype run_state = On | Off

record throttle_state =
  ema :: "rat option"
  state :: run_state
  last_switch :: rat

definition hysteresis :: rat where "hysteresis = 10"
definition min_on :: rat where "min_on = round_to_double (6 / 10)"
definition min_off :: rat where "min_off = round_to_double (4 / 10)"
definition alpha :: rat where "alpha = round_to_double (3 / 10)"

text \<open>The state before the loop; \<open>started\<close> is the clock reading taken there.\<close>

definition throttle_init :: "rat \<Rightarrow> throttle_state" where
  "throttle_init started = \<lparr> ema = None, state = On, last_switch = started \<rparr>"

text \<open>
  The new average for a sample:
  \<open>sys_pct if ema is None else (alpha * sys_pct + (1 - alpha) * ema)\<close>.
\<close>

definition next_ema :: "rat option \<Rightarrow> rat \<Rightarrow> rat" where
  "next_ema e sys_pct =
     (case e of None \<Rightarrow> sys_pct
      | Some old \<Rightarrow> fadd (fmul alpha sys_pct) (fmul (fsub 1 alpha) old))"

text \<open>
  One pass of the loop body, for the sample \<open>sys_pct\<close> and the clock reading
  \<open>now\<close> taken after it. \<open>limit\<close> is \<open>float(self.cpu_limit_percent)\<close>. The
  calls \<open>proc.suspend()\<close> and \<open>proc.resume()\<close> go with the change of \<open>state\<close>
  to off and to on.
\<close>

definition throttle_step :: "rat \<Rightarrow> throttle_state \<Rightarrow> rat \<times> rat \<Rightarrow> throttle_state" where
  "throttle_step limit th sample =
     (case sample of (sys_pct, now) \<Rightarrow>
        let e = next_ema (ema th) sys_pct in
        if state th = On then
          (if e > limit \<and> fsub now (last_switch th) \<ge> min_on
           then \<lparr> ema = Some e, state = Off, last_switch = now \<rparr>
           else th \<lparr> ema := Some e \<rparr>)
        else
          (if e < fsub limit hysteresis \<and> fsub now (last_switch th) \<ge> min_off
           then \<lparr> ema = Some e, state = On, last_switch = now \<rparr>
           else th \<lparr> ema := Some e \<rparr>))"

text \<open>
  The loop over the samples taken while the encoder is alive and no stop is signalled.
  It returns the final state and the transitions made: the clock reading and the new
  run state of each.
\<close>

fun throttle_loop ::
  "rat \<Rightarrow> throttle_state \<Rightarrow> (rat \<times> rat) list \<Rightarrow> throttle_state \<times> (rat \<times> run_state) list" where
  "throttle_loop limit th [] = (th, [])"
| "throttle_loop limit th (sample # samples) =
     (let th' = throttle_step limit th sample;
          (final, transitions) = throttle_loop limit th' samples
      in (final, if state th' \<noteq> state th then (snd sample, state th') # transitions
                 else transitions))"

definition cpu_throttle_worker ::
  "rat \<Rightarrow> rat \<Rightarrow> (rat \<times> rat) list \<Rightarrow> throttle_state \<times> (rat \<times> run_state) list" where
  "cpu_throttle_worker limit started samples = throttle_loop limit (throttle_init started) samples"

text \<open>
  The exponential moving average of a sequence of load samples, with smoothing factor
  \<open>alpha\<close>: None for no sample, the first sample itself, then
  \<open>alpha * sample + (1 - alpha) * average\<close> for each further one.
\<close>

definition moving_average :: "rat list \<Rightarrow> rat option" where
  "moving_average loads = foldl (\<lambda>e sys_pct. Some (next_ema e sys_pct)) None loads"

text \<open>
  The dwell times of a list of transitions that starts after a switch at \<open>t0\<close>: the
  elapsed time the worker computes for each transition, from the one before, is at least
  \<open>min_on\<close> when it suspends and at least \<open>min_off\<close> when it resumes.
\<close>

fun dwell_ok :: "rat \<Rightarrow> (rat \<times> run_state) list \<Rightarrow> bool" where
  "dwell_ok t0 [] = True"
| "dwell_ok t0 ((t, s) # rest) =
     (fsub t t0 \<ge> (case s of Off \<Rightarrow> min_on | On \<Rightarrow> min_off) \<and> dwell_ok t rest)"

text \<open>The run states of successive transitions alternate, starting from \<open>s0\<close>.\<close>

fun alternates :: "run_state \<Rightarrow> (rat \<times> run_state) list \<Rightarrow> bool" where
  "alternates s0 [] = True"
| "alternates s0 ((t, s) # rest) = (s \<noteq> s0 \<and> alternates s rest)"

section \<open>The encode supervisor (src/app.py, \<open>run_ffmpeg\<close>)\<close>

text \<open>
  The encoder process as the supervisor and the throttle worker see it:
  \<open>process.poll()\<close> is None while it runs or is suspended. A suspended process does
  nothing until it is resumed; \<open>process.kill()\<close> ends it in either state.
\<close>

datatype proc_state = Running | Suspended | Exited int | Killed

definition alive :: "proc_state \<Rightarrow> bool" where
  "alive p = (p = Running \<or> p = Suspended)"

definition suspend :: "proc_state \<Rightarrow> proc_state" where
  "suspend p = (if p = Running then Suspended else p)"

definition resume :: "proc_state \<Rightarrow> proc_state" where
  "resume p = (if p = Suspended then Running else p)"

definition kill :: "proc_state \<Rightarrow> proc_state" where
  "kill p = (if alive p then Killed else p)"

text \<open>
  What the progress parser does with a line. \<open>strip\<close> removes the ASCII white space
  at both ends (Python also removes non-ASCII white space). \<open>int_literal value\<close> says
  that \<open>int(value)\<close> does not raise ValueError: white space around, an optional
  sign, then digits, where single underscores may separate digits. \<open>isdigit\<close> is
  \<open>value.isdigit()\<close> on ASCII text. Not modelled: digits outside ASCII, and the
  rejection of literals of more than 4300 digits by recent Python versions.
\<close>

definition is_space :: "char \<Rightarrow> bool" where
  "is_space c = (of_char c \<in> {9, 10, 11, 12, 13, 28, 29, 30, 31, 32 :: nat})"

definition strip :: "string \<Rightarrow> string" where
  "strip s = rev (dropWhile is_space (rev (dropWhile is_space s)))"

definition is_digit :: "char \<Rightarrow> bool" where
  "is_digit c = (c \<in> set ''0123456789'')"

definition isdigit :: "string \<Rightarrow> bool" where
  "isdigit value = (value \<noteq> [] \<and> (\<forall>c \<in> set value. is_digit c))"

definition int_literal :: "string \<Rightarrow> bool" where
  "int_literal value =
     (let s = strip value;
          body = (case s of [] \<Rightarrow> []
                  | c # r \<Rightarrow> if c = CHR ''+'' \<or> c = CHR ''-'' then r else s)
      in \<forall>part \<in> set (split_on CHR ''_'' body). isdigit part)"

text \<open>
  \<open>progress_line duration line\<close>: the line makes the loop body reach
  \<open>last_progress_time = current_time\<close>, that is, it is \<open>out_time_ms=v\<close> with
  \<open>duration > 0\<close> and \<open>int(v)\<close> succeeding, or \<open>total_size=v\<close> with \<open>v\<close> not
  N/A and all digits. The updates of the progress bar and labels before that assignment
  are not modelled.
\<close>

definition progress_line :: "rat \<Rightarrow> string \<Rightarrow> bool" where
  "progress_line dur line =
     (case split_on CHR ''='' (strip line) of
        [key, value] \<Rightarrow>
          if key = ''out_time_ms'' \<and> dur > 0 then int_literal value
          else if key = ''total_size'' then value \<noteq> ''N/A'' \<and> isdigit value
          else False
      | _ \<Rightarrow> False)"

text \<open>
  What happens while the supervisor reads \<open>process.stdout\<close>, in the order it happens:
  a line arrives (with the clock reading the loop body takes for it and whether
  \<open>self.stop_event\<close> is set at that point; the stall test subtracts clock readings
  as floats), or the throttle worker suspends or resumes
  the encoder. After the last event either the stream closes and the encoder exits with
  a return code, or the encoder stays alive and writes nothing more.
\<close>

datatype event = Line rat bool string | Throttle_suspend | Throttle_resume

datatype stream_end = Exits int | Silent

datatype effect = Kill_process | Set_throttle_stop | Resume_process | Join_throttle

text \<open>
  How a call of \<open>run_ffmpeg\<close> ends: it returns, it raises one of its three
  exceptions, or it never gets that far because it waits for a line, or for the exit of
  the encoder, that never comes.
\<close>

datatype outcome =
  Returned | Raised_exit_code int | Raised_stopped_by_user | Raised_stuck | Blocked

record supervisor =
  proc :: proc_state
  last_progress_time :: rat
  effects :: "effect list"

definition stuck_timeout :: rat where
  "stuck_timeout = 60"

text \<open>
  The cleanup after \<open>process.wait()\<close>: set the stop event of the throttle worker,
  resume the encoder if \<open>process.poll()\<close> is None, then join the worker (the join is
  made if the worker thread is still alive).
\<close>

definition teardown :: "supervisor \<Rightarrow> supervisor" where
  "teardown s =
     (let s1 = s \<lparr> effects := effects s @ [Set_throttle_stop] \<rparr>;
          s2 = (if alive (proc s1)
                then s1 \<lparr> proc := resume (proc s1), effects := effects s1 @ [Resume_process] \<rparr>
                else s1)
      in s2 \<lparr> effects := effects s2 @ [Join_throttle] \<rparr>)"

text \<open>
  After the loop: \<open>process.wait()\<close> returns once the encoder has exited, which a
  suspended encoder does not do; then the cleanup, then the check of the return code.
\<close>

definition after_loop :: "supervisor \<Rightarrow> int \<Rightarrow> outcome \<times> supervisor" where
  "after_loop s rc =
     (if proc s = Suspended then (Blocked, s)
      else
        let s' = teardown (s \<lparr> proc := Exited rc \<rparr>)
        in (if rc \<noteq> 0 then Raised_exit_code rc else Returned, s'))"

definition kill_process :: "supervisor \<Rightarrow> supervisor" where
  "kill_process s = s \<lparr> proc := kill (proc s), effects := effects s @ [Kill_process] \<rparr>"

text \<open>The loop \<open>for line in process.stdout\<close>.\<close>

fun line_loop :: "rat \<Rightarrow> supervisor \<Rightarrow> event list \<Rightarrow> stream_end \<Rightarrow> outcome \<times> supervisor" where
  "line_loop dur s [] Silent = (Blocked, s)"
| "line_loop dur s [] (Exits rc) = after_loop s rc"
| "line_loop dur s (Throttle_suspend # es) e =
     line_loop dur (s \<lparr> proc := suspend (proc s) \<rparr>) es e"
| "line_loop dur s (Throttle_resume # es) e =
     line_loop dur (s \<lparr> proc := resume (proc s) \<rparr>) es e"
| "line_loop dur s (Line current_time stop_set line # es) e =
     (if stop_set then (Raised_stopped_by_user, kill_process s)
      else if fsub current_time (last_progress_time s) > stuck_timeout
      then (Raised_stuck, kill_process s)
      else line_loop dur
             (if progress_line dur line then s \<lparr> last_progress_time := current_time \<rparr>
              else s) es e)"

text \<open>
  \<open>run_ffmpeg\<close> from the start of the encoder on; \<open>started\<close> is the clock reading
  that initialises \<open>last_progress_time\<close>.
\<close>

definition run_ffmpeg :: "rat \<Rightarrow> rat \<Rightarrow> event list \<Rightarrow> stream_end \<Rightarrow> outcome \<times> supervisor" where
  "run_ffmpeg dur started events e =
     line_loop dur \<lparr> proc = Running, last_progress_time = started, effects = [] \<rparr> events e"

section \<open>The resolution scaler (src/app.py, \<open>adjust_vbv_for_resolution\<close>)\<close>

datatype py_error = ValueError | OverflowError

text \<open>
  \<open>int(s)\<close> for a string: white space around, an optional sign, then digits, where
  single underscores may separate digits; anything else raises ValueError (\<open>None\<close>).
  As for \<open>int_literal\<close>, digits outside ASCII and the limit of 4300 digits of recent
  Python versions are not modelled.
\<close>

definition digit_value :: "char \<Rightarrow> int" where
  "digit_value c = of_char c - 48"

definition py_int :: "string \<Rightarrow> int option" where
  "py_int value =
     (let s = strip value;
          negative = (case s of [] \<Rightarrow> False | c # r \<Rightarrow> c = CHR ''-'');
          body = (case s of [] \<Rightarrow> []
                  | c # r \<Rightarrow> if c = CHR ''+'' \<or> c = CHR ''-'' then r else s)
      in if \<forall>part \<in> set (split_on CHR ''_'' body). isdigit part
         then let n = foldl (\<lambda>a c. 10 * a + digit_value c) 0
                        (filter (\<lambda>c. c \<noteq> CHR ''_'') body)
              in Some (if negative then - n else n)
         else None)"

text \<open>The decimal digits of an integer, as \<open>str\<close> and an f-string write it.\<close>

definition digit_char :: "int \<Rightarrow> char" where
  "digit_char d = ''0123456789'' ! nat d"

function str_of_nonneg :: "int \<Rightarrow> string" where
  "str_of_nonneg n =
     (if n < 10 then [digit_char n] else str_of_nonneg (n div 10) @ [digit_char (n mod 10)])"
  by pat_completeness auto
termination
  by (relation "measure nat") auto

definition str_of_int :: "int \<Rightarrow> string" where
  "str_of_int n = (if n < 0 then CHR ''-'' # str_of_nonneg (- n) else str_of_nonneg n)"

text \<open>\<open>s.replace('k', '')\<close>.\<close>

definition remove_k :: "string \<Rightarrow> string" where
  "remove_k s = filter (\<lambda>c. c \<noteq> CHR ''k'') s"

text \<open>
  \<open>int(value * multiplier)\<close> for an int \<open>value\<close> and a float \<open>multiplier\<close>:
  the int is converted to a float (OverflowError when it is beyond the largest double),
  the product is rounded, and \<open>int\<close> cuts the fraction off, towards zero
  (OverflowError when the product is infinite).
\<close>

definition max_double :: rat where
  "max_double = (2 ^ 53 - 1) * 2 ^ 971"

definition py_trunc :: "rat \<Rightarrow> int" where
  "py_trunc x = (if x \<ge> 0 then \<lfloor>x\<rfloor> else \<lceil>x\<rceil>)"

definition int_of_product :: "int \<Rightarrow> rat \<Rightarrow> py_error + int" where
  "int_of_product value multiplier =
     (let a = round_to_double (of_int value) in
      if \<bar>a\<bar> > max_double then Inl OverflowError
      else let p = fmul a multiplier in
           if \<bar>p\<bar> > max_double then Inl OverflowError else Inr (py_trunc p))"

text \<open>The multiplier of the band of a pixel count.\<close>

definition resolution_multiplier :: "int \<Rightarrow> rat" where
  "resolution_multiplier pixels =
     (if pixels \<ge> 3840 * 2160 then 2
      else if pixels \<ge> 1920 * 1080 then 1
      else if pixels \<ge> 1280 * 720 then round_to_double (7 / 10)
      else round_to_double (4 / 10))"

text \<open>
  \<open>adjust_vbv_for_resolution(settings, video_info)\<close>: both rate fields are parsed
  first, then each is scaled and written back with the suffix k.
\<close>

definition adjust_vbv_for_resolution :: "tier \<Rightarrow> video_info \<Rightarrow> py_error + tier" where
  "adjust_vbv_for_resolution settings info =
     (let multiplier = resolution_multiplier (pixel_count info) in
      case py_int (remove_k (vbv_maxrate settings)) of
        None \<Rightarrow> Inl ValueError
      | Some maxrate_value \<Rightarrow>
          (case py_int (remove_k (vbv_bufsize settings)) of
             None \<Rightarrow> Inl ValueError
           | Some bufsize_value \<Rightarrow>
               (case int_of_product maxrate_value multiplier of
                  Inl err \<Rightarrow> Inl err
                | Inr maxrate \<Rightarrow>
                    (case int_of_product bufsize_value multiplier of
                       Inl err \<Rightarrow> Inl err
                     | Inr bufsize \<Rightarrow>
                         Inr (settings \<lparr> vbv_maxrate := str_of_int maxrate @ ''k'',
                                          vbv_bufsize := str_of_int bufsize @ ''k'' \<rparr>)))))"

text \<open>
  The number the scaler writes for a rate \<open>value\<close> at a pixel count, when no
  OverflowError arises.
\<close>

definition scaled_rate :: "int \<Rightarrow> int \<Rightarrow> int" where
  "scaled_rate pixels value =
     py_trunc (fmul (round_to_double (of_int value)) (resolution_multiplier pixels))"

text \<open>A probe result with the given pixel count, for evaluating the scaler.\<close>

definition info_with_pixels :: "int \<Rightarrow> video_info" where
  "info_with_pixels n = (sample_info 3000) \<lparr> pixel_count := n \<rparr>"

section \<open>The round-robin scheduler: lemmas\<close>

declare round_robin_while.simps [simp del]

subsection \<open>The dictionary and one round\<close>


lemma map_of_dict_set: "map_of (dict_set d k v) = (map_of d)(k \<mapsto> v)"
  by (induction d k v rule: dict_set.induct) auto

lemma dict_get_dict_set:
  "dict_get (dict_set d k v) k' = (if k' = k then v else dict_get d k')"
  by (simp add: dict_get_def map_of_dict_set)

lemma keys_dict_set:
  "map fst (dict_set d k v) = (if k \<in> fst ` set d then map fst d else map fst d @ [k])"
  by (induction d k v rule: dict_set.induct) auto

lemma dict_get_nonempty_key: "dict_get d k \<noteq> [] \<Longrightarrow> k \<in> fst ` set d"
  using map_of_eq_None_iff [of d k] by (auto simp: dict_get_def split: option.splits)

lemma dict_get_nonempty_value:
  "dict_get d k \<noteq> [] \<Longrightarrow> \<exists>files \<in> set (map snd d). 0 < length files"
proof -
  assume n: "dict_get d k \<noteq> []"
  then obtain v where v: "map_of d k = Some v" "v \<noteq> []"
    by (auto simp: dict_get_def split: option.splits)
  then have "(k, v) \<in> set d" by (auto dest: map_of_SomeD)
  then have "v \<in> set (map snd d)" by force
  with v(2) show ?thesis by auto
qed

lemma for_each_camera_append:
  "for_each_camera b cams cf rl =
     (fst (for_each_camera b cams cf []), rl @ snd (for_each_camera b cams cf []))"
proof (induction cams arbitrary: cf rl)
  case Nil
  show ?case by simp
next
  case (Cons c cams)
  show ?case
  proof (cases "dict_get cf c = []")
    case True
    then show ?thesis using Cons.IH [of cf rl] by simp
  next
    case False
    let ?cf = "dict_set cf c (drop b (dict_get cf c))"
    show ?thesis
      using False Cons.IH [of ?cf "rl @ take b (dict_get cf c)"]
        Cons.IH [of ?cf "take b (dict_get cf c)"]
      by (simp add: Let_def)
  qed
qed

lemma keys_for_each_camera: "map fst (fst (for_each_camera b cams cf rl)) = map fst cf"
proof (induction cams arbitrary: cf rl)
  case Nil
  show ?case by simp
next
  case (Cons c cams)
  show ?case
    using Cons.IH dict_get_nonempty_key [of cf c]
    by (simp add: Let_def keys_dict_set)
qed

lemma dict_get_for_each_camera:
  "distinct cams \<Longrightarrow>
   dict_get (fst (for_each_camera b cams cf rl)) c =
     (if c \<in> set cams then drop b (dict_get cf c) else dict_get cf c)"
proof (induction cams arbitrary: cf rl)
  case Nil
  show ?case by simp
next
  case (Cons a cams)
  then have d: "distinct cams" and a: "a \<notin> set cams" by simp_all
  show ?case
  proof (cases "dict_get cf a = []")
    case True
    then show ?thesis using Cons.IH [OF d, of cf rl] a by auto
  next
    case False
    then show ?thesis
      using Cons.IH [OF d, of "dict_set cf a (drop b (dict_get cf a))"
          "rl @ take b (dict_get cf a)"] a
      by (auto simp: Let_def dict_get_dict_set)
  qed
qed

lemma list_for_each_camera:
  "distinct cams \<Longrightarrow>
   snd (for_each_camera b cams cf rl) = rl @ concat (map (\<lambda>c. take b (dict_get cf c)) cams)"
proof (induction cams arbitrary: cf rl)
  case Nil
  show ?case by simp
next
  case (Cons a cams)
  then have d: "distinct cams" and a: "a \<notin> set cams" by simp_all
  have same: "map (\<lambda>c. take b (dict_get (dict_set cf a v) c)) cams
      = map (\<lambda>c. take b (dict_get cf c)) cams" for v
    using a by (auto simp: dict_get_dict_set)
  show ?case
  proof (cases "dict_get cf a = []")
    case True
    then show ?thesis using Cons.IH [OF d, of cf rl] by simp
  next
    case False
    then show ?thesis
      using Cons.IH [OF d, of "dict_set cf a (drop b (dict_get cf a))"
          "rl @ take b (dict_get cf a)"]
      by (simp add: Let_def same)
  qed
qed

lemma round_robin_while_stop:
  "\<not> ((\<exists>files \<in> set (map snd cf). length files > 0) \<and> it < max_iterations) \<Longrightarrow>
   round_robin_while b cams cf rl it = rl"
  by (subst round_robin_while.simps) auto

lemma round_robin_while_step:
  "(\<exists>files \<in> set (map snd cf). length files > 0) \<Longrightarrow> it < max_iterations \<Longrightarrow>
   for_each_camera b cams cf rl = (cf', rl') \<Longrightarrow>
   round_robin_while b cams cf rl it = round_robin_while b cams cf' rl' (it + 1)"
  by (subst round_robin_while.simps) simp

lemma round_robin_while_append:
  "round_robin_while b cams cf rl it = rl @ round_robin_while b cams cf [] it"
proof (induction "max_iterations - it" arbitrary: cf rl it)
  case 0
  then show ?case by (simp add: round_robin_while_stop)
next
  case (Suc n)
  show ?case
  proof (cases "\<exists>files \<in> set (map snd cf). length files > 0")
    case False
    then show ?thesis by (simp add: round_robin_while_stop)
  next
    case True
    from Suc.hyps(2) have lt: "it < max_iterations" and n: "n = max_iterations - (it + 1)"
      by simp_all
    obtain cf' l' where e: "for_each_camera b cams cf [] = (cf', l')"
      by (cases "for_each_camera b cams cf []")
    have e2: "for_each_camera b cams cf rl = (cf', rl @ l')"
      using for_each_camera_append [of b cams cf rl] e by simp
    have "round_robin_while b cams cf rl it = round_robin_while b cams cf' (rl @ l') (it + 1)"
      using True lt e2 by (rule round_robin_while_step)
    also have "\<dots> = (rl @ l') @ round_robin_while b cams cf' [] (it + 1)"
      by (rule Suc.hyps(1) [OF n])
    finally have a: "round_robin_while b cams cf rl it
        = rl @ l' @ round_robin_while b cams cf' [] (it + 1)" by simp
    have "round_robin_while b cams cf [] it = round_robin_while b cams cf' l' (it + 1)"
      using True lt e by (rule round_robin_while_step)
    also have "\<dots> = l' @ round_robin_while b cams cf' [] (it + 1)"
      by (rule Suc.hyps(1) [OF n])
    finally show ?thesis using a by simp
  qed
qed

text \<open>One round, seen from a state with an empty output list.\<close>

lemma round_robin_while_round:
  assumes "\<exists>files \<in> set (map snd cf). length files > 0" "it < max_iterations"
  shows "round_robin_while b cams cf [] it =
     snd (for_each_camera b cams cf []) @
     round_robin_while b cams (fst (for_each_camera b cams cf [])) [] (it + 1)"
proof -
  have "round_robin_while b cams cf [] it =
     round_robin_while b cams (fst (for_each_camera b cams cf []))
       (snd (for_each_camera b cams cf [])) (it + 1)"
    using assms by (intro round_robin_while_step) simp_all
  then show ?thesis
    using round_robin_while_append [of b cams "fst (for_each_camera b cams cf [])"
        "snd (for_each_camera b cams cf [])" "it + 1"] by simp
qed


lemma rr_inv_step:
  assumes "rr_inv cams cf"
  shows "rr_inv cams (fst (for_each_camera b cams cf []))"
proof -
  from assms have d: "distinct cams" by (simp add: rr_inv_def)
  have g: "dict_get (fst (for_each_camera b cams cf [])) c =
      (if c \<in> set cams then drop b (dict_get cf c) else dict_get cf c)" for c
    by (rule dict_get_for_each_camera [OF d])
  show ?thesis
    unfolding rr_inv_def
  proof (intro conjI allI impI ballI)
    show "distinct cams" by (rule d)
  next
    fix c assume "dict_get (fst (for_each_camera b cams cf [])) c \<noteq> []"
    then have "dict_get cf c \<noteq> []" by (auto simp: g split: if_splits)
    with assms show "c \<in> set cams" by (simp add: rr_inv_def)
  next
    fix c f assume "f \<in> set (dict_get (fst (for_each_camera b cams cf [])) c)"
    then have "f \<in> set (dict_get cf c)" by (auto simp: g split: if_splits dest: in_set_dropD)
    with assms show "camera_folder_of f = Some c" by (simp add: rr_inv_def)
  qed
qed

lemma filter_one_camera:
  "\<forall>f \<in> set xs. camera_folder_of f = Some c \<Longrightarrow>
   filter (\<lambda>f. camera_folder_of f = Some X) xs = (if c = X then xs else [])"
  by (induction xs) auto

lemma filter_concat_cameras:
  "distinct cams \<Longrightarrow> \<forall>c \<in> set cams. \<forall>f \<in> set (g c). camera_folder_of f = Some c \<Longrightarrow>
   filter (\<lambda>f. camera_folder_of f = Some X) (concat (map g cams)) =
     (if X \<in> set cams then g X else [])"
proof (induction cams)
  case Nil
  show ?case by simp
next
  case (Cons a cams)
  then have ih: "filter (\<lambda>f. camera_folder_of f = Some X) (concat (map g cams)) =
     (if X \<in> set cams then g X else [])" by simp
  have a: "filter (\<lambda>f. camera_folder_of f = Some X) (g a) = (if a = X then g a else [])"
    using Cons.prems(2) by (intro filter_one_camera) simp
  show ?case using ih a Cons.prems(1) by auto
qed

lemma files_of_camera_round:
  assumes "rr_inv cams cf"
  shows "files_of_camera X (snd (for_each_camera b cams cf [])) =
     (if X \<in> set cams then min b (length (dict_get cf X)) else 0)"
proof -
  from assms have d: "distinct cams"
    and f: "\<forall>c \<in> set cams. \<forall>f \<in> set (take b (dict_get cf c)). camera_folder_of f = Some c"
    by (auto simp: rr_inv_def dest: in_set_takeD)
  show ?thesis
    using filter_concat_cameras [OF d f, of X]
    by (simp add: files_of_camera_def list_for_each_camera [OF d] min.commute)
qed

lemma files_of_camera_append:
  "files_of_camera X (xs @ ys) = files_of_camera X xs + files_of_camera X ys"
  by (simp add: files_of_camera_def)

lemma files_of_camera_take_le: "files_of_camera X (take k xs) \<le> files_of_camera X xs"
proof -
  have "files_of_camera X xs = files_of_camera X (take k xs) + files_of_camera X (drop k xs)"
    using files_of_camera_append [of X "take k xs" "drop k xs"] by simp
  then show ?thesis by simp
qed

lemma round_robin_while_fair:
  assumes "rr_inv cams cf"
    and "files_of_camera X (take k (round_robin_while b cams cf [] it)) < length (dict_get cf X)"
    and "files_of_camera Y (take k (round_robin_while b cams cf [] it)) < length (dict_get cf Y)"
  shows "files_of_camera X (take k (round_robin_while b cams cf [] it))
      \<le> files_of_camera Y (take k (round_robin_while b cams cf [] it)) + b"
  using assms
proof (induction "max_iterations - it" arbitrary: cf it k)
  case 0
  then show ?case by (simp add: round_robin_while_stop files_of_camera_def)
next
  case (Suc n)
  show ?case
  proof (cases "\<exists>files \<in> set (map snd cf). length files > 0")
    case False
    then show ?thesis by (simp add: round_robin_while_stop files_of_camera_def)
  next
    case True
    from Suc.hyps(2) have lt: "it < max_iterations" and n: "n = max_iterations - (it + 1)"
      by simp_all
    let ?P = "snd (for_each_camera b cams cf [])"
    let ?cf = "fst (for_each_camera b cams cf [])"
    let ?out' = "round_robin_while b cams ?cf [] (it + 1)"
    have out: "round_robin_while b cams cf [] it = ?P @ ?out'"
      using True lt by (rule round_robin_while_round)
    have inv': "rr_inv cams ?cf" by (rule rr_inv_step [OF Suc.prems(1)])
    have d: "distinct cams" using Suc.prems(1) by (simp add: rr_inv_def)
    have cntP: "files_of_camera Z ?P = (if Z \<in> set cams then min b (length (dict_get cf Z)) else 0)"
      for Z by (rule files_of_camera_round [OF Suc.prems(1)])
    show ?thesis
    proof (cases "k \<le> length ?P")
      case True
      then have "files_of_camera X (take k (round_robin_while b cams cf [] it))
          = files_of_camera X (take k ?P)" by (simp add: out)
      also have "\<dots> \<le> files_of_camera X ?P" by (rule files_of_camera_take_le)
      also have "\<dots> \<le> b" by (simp add: cntP)
      finally show ?thesis by simp
    next
      case False
      then have tk: "take k (round_robin_while b cams cf [] it) = ?P @ take (k - length ?P) ?out'"
        by (simp add: out)
      have step: "Z \<in> set cams \<and> files_of_camera Z ?P = b \<and>
            files_of_camera Z (take (k - length ?P) ?out') < length (dict_get ?cf Z)"
        if z: "files_of_camera Z (take k (round_robin_while b cams cf [] it))
                < length (dict_get cf Z)" for Z
      proof -
        from z have ne: "dict_get cf Z \<noteq> []" by auto
        with Suc.prems(1) have m: "Z \<in> set cams" by (simp add: rr_inv_def)
        from z have s: "files_of_camera Z ?P + files_of_camera Z (take (k - length ?P) ?out')
            < length (dict_get cf Z)" by (simp add: tk files_of_camera_append)
        then have b: "b < length (dict_get cf Z)" using m by (simp add: cntP min_def split: if_splits)
        then have p: "files_of_camera Z ?P = b" using m by (simp add: cntP)
        have "length (dict_get ?cf Z) = length (dict_get cf Z) - b"
          using m by (simp add: dict_get_for_each_camera [OF d])
        with s p m show ?thesis by simp
      qed
      from step [OF Suc.prems(2)] step [OF Suc.prems(3)]
      have "files_of_camera X (take (k - length ?P) ?out')
          \<le> files_of_camera Y (take (k - length ?P) ?out') + b"
        by (intro Suc.hyps(1) [OF n inv']) simp_all
      with step [OF Suc.prems(2)] step [OF Suc.prems(3)] show ?thesis
        by (simp add: tk files_of_camera_append)
    qed
  qed
qed

lemma not_any_files_all_empty:
  "\<not> (\<exists>files \<in> set (map snd cf). length files > 0) \<Longrightarrow> dict_get cf c = []"
  using dict_get_nonempty_value [of cf c] by blast

lemma round_robin_while_mset:
  assumes "rr_inv cams cf" and "\<forall>c. length (dict_get cf c) \<le> (max_iterations - it) * b"
  shows "mset (round_robin_while b cams cf [] it) = (\<Sum>c\<leftarrow>cams. mset (dict_get cf c))"
  using assms
proof (induction "max_iterations - it" arbitrary: cf it)
  case 0
  then have "dict_get cf c = []" for c by simp
  then show ?case using 0 by (simp add: round_robin_while_stop)
next
  case (Suc n)
  show ?case
  proof (cases "\<exists>files \<in> set (map snd cf). length files > 0")
    case False
    then have "dict_get cf c = []" for c by (rule not_any_files_all_empty)
    then show ?thesis using False by (simp add: round_robin_while_stop)
  next
    case True
    from Suc.hyps(2) have lt: "it < max_iterations" and n: "n = max_iterations - (it + 1)"
      by simp_all
    let ?P = "snd (for_each_camera b cams cf [])"
    let ?cf = "fst (for_each_camera b cams cf [])"
    have d: "distinct cams" using Suc.prems(1) by (simp add: rr_inv_def)
    have out: "round_robin_while b cams cf [] it
        = ?P @ round_robin_while b cams ?cf [] (it + 1)"
      using True lt by (rule round_robin_while_round)
    have len: "\<forall>c. length (dict_get ?cf c) \<le> (max_iterations - (it + 1)) * b"
    proof
      fix c
      have "length (dict_get cf c) \<le> (Suc n) * b" using Suc.prems(2) Suc.hyps(2) by simp
      then have "length (dict_get cf c) - b \<le> n * b" by simp
      moreover have "length (dict_get cf c) \<le> n * b" if "c \<notin> set cams"
      proof -
        from that Suc.prems(1) have "dict_get cf c = []" unfolding rr_inv_def by blast
        then show ?thesis by simp
      qed
      ultimately show "length (dict_get ?cf c) \<le> (max_iterations - (it + 1)) * b"
        using n by (simp add: dict_get_for_each_camera [OF d])
    qed
    have ih: "mset (round_robin_while b cams ?cf [] (it + 1)) = (\<Sum>c\<leftarrow>cams. mset (dict_get ?cf c))"
      by (rule Suc.hyps(1) [OF n rr_inv_step [OF Suc.prems(1)] len])
    have m: "map (\<lambda>c. mset (dict_get ?cf c)) cams = map (\<lambda>c. mset (drop b (dict_get cf c))) cams"
      by (simp add: dict_get_for_each_camera [OF d])
    have p: "mset ?P = (\<Sum>c\<leftarrow>cams. mset (take b (dict_get cf c)))"
      by (simp add: list_for_each_camera [OF d] mset_concat comp_def)
    have "(\<Sum>c\<leftarrow>cams. mset (take b (dict_get cf c))) + (\<Sum>c\<leftarrow>cams. mset (drop b (dict_get cf c)))
        = (\<Sum>c\<leftarrow>cams. mset (take b (dict_get cf c)) + mset (drop b (dict_get cf c)))"
      by (simp add: sum_list_addf)
    also have "\<dots> = (\<Sum>c\<leftarrow>cams. mset (dict_get cf c))"
      by (simp flip: mset_append)
    finally show ?thesis using ih m p by (simp add: out)
  qed
qed

lemma round_robin_while_head:
  assumes "rr_inv (c0 # rest) cf" "dict_get cf c0 \<noteq> []" "0 < b" "it < max_iterations"
  shows "round_robin_while b (c0 # rest) cf [] it \<noteq> [] \<and>
     hd (round_robin_while b (c0 # rest) cf [] it) = hd (dict_get cf c0)"
proof -
  have any: "\<exists>files \<in> set (map snd cf). length files > 0"
    by (rule dict_get_nonempty_value [OF assms(2)])
  have d: "distinct (c0 # rest)" using assms(1) by (simp add: rr_inv_def)
  have "round_robin_while b (c0 # rest) cf [] it =
      snd (for_each_camera b (c0 # rest) cf []) @
      round_robin_while b (c0 # rest) (fst (for_each_camera b (c0 # rest) cf [])) [] (it + 1)"
    using any assms(4) by (rule round_robin_while_round)
  moreover have "snd (for_each_camera b (c0 # rest) cf []) =
      take b (dict_get cf c0) @ concat (map (\<lambda>c. take b (dict_get cf c)) rest)"
    by (subst list_for_each_camera [OF d]) simp
  moreover have "take b (dict_get cf c0) \<noteq> []" "hd (take b (dict_get cf c0)) = hd (dict_get cf c0)"
    using assms(2,3) by (cases "dict_get cf c0"; cases b; simp)+
  ultimately show ?thesis by simp
qed

lemma length_for_each_camera:
  "length (snd (for_each_camera b cams cf rl)) \<le> length rl + b * length cams"
proof (induction cams arbitrary: cf rl)
  case Nil
  show ?case by simp
next
  case (Cons a cams)
  show ?case
  proof (cases "dict_get cf a = []")
    case True
    then show ?thesis using Cons.IH [of cf rl] by simp
  next
    case False
    then show ?thesis
      using Cons.IH [of "dict_set cf a (drop b (dict_get cf a))" "rl @ take b (dict_get cf a)"]
      by (simp add: Let_def)
  qed
qed

lemma length_round_robin_while:
  "length (round_robin_while b cams cf [] it) \<le> (max_iterations - it) * (b * length cams)"
proof (induction "max_iterations - it" arbitrary: cf it)
  case 0
  then show ?case by (simp add: round_robin_while_stop)
next
  case (Suc n)
  show ?case
  proof (cases "\<exists>files \<in> set (map snd cf). length files > 0")
    case False
    then show ?thesis by (simp add: round_robin_while_stop)
  next
    case True
    from Suc.hyps(2) have lt: "it < max_iterations" and n: "n = max_iterations - (it + 1)"
      by simp_all
    have "length (round_robin_while b cams cf [] it) \<le>
       b * length cams + (max_iterations - (it + 1)) * (b * length cams)"
      using round_robin_while_round [OF True lt, of b cams]
        length_for_each_camera [of b cams cf "[]"] Suc.hyps(1) [OF n, of "fst (for_each_camera b cams cf [])"]
      by simp
    also have "\<dots> = (max_iterations - it) * (b * length cams)"
      using Suc.hyps(2) n by (metis mult_Suc)
    finally show ?thesis .
  qed
qed

subsection \<open>Grouping\<close>

lemma camera_folder_nonempty: "camera_folder_of f = Some c \<Longrightarrow> c \<noteq> []"
  by (auto simp: camera_folder_of_def find_Some_iff startswith_def)

lemma dict_get_group_file:
  "dict_get (group_file d f) c =
     dict_get d c @ (if camera_folder_of f = Some c then [f] else [])"
proof (cases "camera_folder_of f")
  case None
  then show ?thesis by (simp add: group_file_def)
next
  case (Some a)
  then have "a \<noteq> []" by (rule camera_folder_nonempty)
  then show ?thesis
    using Some
    by (auto simp: group_file_def Let_def dict_get_dict_set)
      (simp add: dict_get_def)
qed

lemma dict_get_empty: "dict_get [] c = []"
  by (simp add: dict_get_def)

lemma set_keys_dict_set: "fst ` set (dict_set d k v) = insert k (fst ` set d)"
  using keys_dict_set [of d k v, THEN arg_cong, of set] by (auto split: if_splits)

lemma keys_group_file:
  "fst ` set (group_file d f) =
     fst ` set d \<union> (case camera_folder_of f of None \<Rightarrow> {} | Some c \<Rightarrow> {c})"
proof (cases "camera_folder_of f")
  case None
  then show ?thesis by (simp add: group_file_def)
next
  case (Some a)
  then have "a \<noteq> []" by (rule camera_folder_nonempty)
  then show ?thesis
    using Some by (simp add: group_file_def Let_def set_keys_dict_set)
qed

lemma distinct_keys_dict_set: "distinct (map fst d) \<Longrightarrow> distinct (map fst (dict_set d k v))"
  by (simp add: keys_dict_set)

lemma distinct_keys_group_file: "distinct (map fst d) \<Longrightarrow> distinct (map fst (group_file d f))"
  by (auto simp: group_file_def Let_def distinct_keys_dict_set split: option.splits)

lemma dict_get_foldl_group:
  "dict_get (foldl group_file d fl) c =
     dict_get d c @ filter (\<lambda>f. camera_folder_of f = Some c) fl"
  by (induction fl arbitrary: d) (simp_all add: dict_get_group_file)

lemma keys_foldl_group:
  "fst ` set (foldl group_file d fl) =
     fst ` set d \<union> {c. \<exists>f \<in> set fl. camera_folder_of f = Some c}"
proof (induction fl arbitrary: d)
  case Nil
  show ?case by simp
next
  case (Cons f fl)
  show ?case
    unfolding foldl_Cons Cons.IH keys_group_file
    by (auto split: option.splits)
qed

lemma distinct_keys_foldl_group:
  "distinct (map fst d) \<Longrightarrow> distinct (map fst (foldl group_file d fl))"
  by (induction fl arbitrary: d) (simp_all add: distinct_keys_group_file)

lemma dict_get_group_files:
  "dict_get (group_files fl) c = filter (\<lambda>f. camera_folder_of f = Some c) fl"
  by (simp add: group_files_def dict_get_foldl_group dict_get_empty)

lemma keys_group_files:
  "fst ` set (group_files fl) = {c. \<exists>f \<in> set fl. camera_folder_of f = Some c}"
  by (simp add: group_files_def keys_foldl_group)

lemma distinct_keys_group_files: "distinct (map fst (group_files fl))"
  by (simp add: group_files_def distinct_keys_foldl_group)

subsection \<open>Reordering\<close>

lemma reorder_cameras_rotate:
  "reorder_cameras xs start =
     (case start of None \<Rightarrow> xs
      | Some sc \<Rightarrow> if sc \<noteq> [] \<and> sc \<in> set xs then rotate (index_of xs sc + 1) xs else xs)"
  by (auto simp: reorder_cameras_def Let_def rotate_drop_take split: option.splits)

lemma set_reorder_cameras: "set (reorder_cameras xs start) = set xs"
  by (simp add: reorder_cameras_rotate split: option.splits)

lemma distinct_reorder_cameras: "distinct (reorder_cameras xs start) = distinct xs"
  by (simp add: reorder_cameras_rotate split: option.splits)

lemma rr_inv_initial:
  "rr_inv (reorder_cameras (sort (map fst (group_files fl))) start) (group_files fl)"
  unfolding rr_inv_def
proof (intro conjI allI impI ballI)
  show "distinct (reorder_cameras (sort (map fst (group_files fl))) start)"
    by (simp add: distinct_reorder_cameras distinct_keys_group_files)
next
  fix c assume "dict_get (group_files fl) c \<noteq> []"
  then have "c \<in> fst ` set (group_files fl)" by (rule dict_get_nonempty_key)
  then show "c \<in> set (reorder_cameras (sort (map fst (group_files fl))) start)"
    by (simp add: set_reorder_cameras)
next
  fix c f assume "f \<in> set (dict_get (group_files fl) c)"
  then show "camera_folder_of f = Some c" by (simp add: dict_get_group_files)
qed

lemma organize_unfold:
  "organize_files_round_robin fl b start =
     round_robin_while b (reorder_cameras (sort (map fst (group_files fl))) start)
       (group_files fl) [] 0"
  by (simp add: organize_files_round_robin_def Let_def)

lemma set_map_filter_cameras:
  "set (List.map_filter g xs) = {y. \<exists>x \<in> set xs. g x = Some y}"
  by (induction xs) (auto split: option.splits)

lemma sorted_cameras_eq:
  "sort (map fst (group_files fl)) = sort (remdups (List.map_filter camera_folder_of fl))"
proof (rule sorted_distinct_set_unique)
  show "set (sort (map fst (group_files fl)))
      = set (sort (remdups (List.map_filter camera_folder_of fl)))"
    using keys_group_files [of fl] by (simp add: set_map_filter_cameras)
qed (simp_all add: distinct_keys_group_files)

lemma index_of_nth_distinct:
  "distinct xs \<Longrightarrow> i < length xs \<Longrightarrow> index_of xs (xs ! i) = i"
proof (induction xs arbitrary: i)
  case Nil
  then show ?case by simp
next
  case (Cons a xs)
  then show ?case by (cases i) auto
qed

lemma organize_head:
  fixes fl :: "string list"
  defines "folders \<equiv> sort (remdups (List.map_filter camera_folder_of fl))"
  assumes i: "i < length folders" "folders ! i = F" and b: "0 < b"
  shows "organize_files_round_robin fl b (Some F) \<noteq> [] \<and>
     camera_folder_of (hd (organize_files_round_robin fl b (Some F)))
       = Some (folders ! ((i + 1) mod length folders))"
proof -
  let ?cf = "group_files fl"
  have S: "sort (map fst ?cf) = folders" by (simp add: folders_def sorted_cameras_eq)
  have dist: "distinct folders" by (simp add: folders_def)
  have setS: "set folders = {c. \<exists>f \<in> set fl. camera_folder_of f = Some c}"
    using keys_group_files [of fl] S [symmetric] by simp
  from i have Fin: "F \<in> set folders" by auto
  then have Fne: "F \<noteq> []" using setS camera_folder_nonempty by auto
  have idx: "index_of folders F = i" using index_of_nth_distinct [OF dist i(1)] i(2) by simp
  let ?cams = "reorder_cameras folders (Some F)"
  have cams: "?cams = rotate (i + 1) folders"
    using Fin Fne idx by (simp add: reorder_cameras_rotate)
  from i have ne: "folders \<noteq> []" by auto
  let ?c0 = "folders ! ((i + 1) mod length folders)"
  have hdc: "hd ?cams = ?c0" using ne by (simp add: cams hd_rotate_conv_nth del: rotate_Suc)
  have "?cams \<noteq> []" using ne by (simp add: cams del: rotate_Suc)
  then obtain rest where cr: "?cams = ?c0 # rest" using hdc by (cases ?cams) auto
  have "?c0 \<in> set folders" using ne by simp
  then have "dict_get ?cf ?c0 \<noteq> []"
    using setS by (auto simp: dict_get_group_files filter_empty_conv)
  moreover have inv: "rr_inv (?c0 # rest) ?cf"
    using rr_inv_initial [of fl "Some F"] S cr by simp
  moreover have "0 < max_iterations" by (simp add: max_iterations_def)
  ultimately have h: "round_robin_while b (?c0 # rest) ?cf [] 0 \<noteq> [] \<and>
     hd (round_robin_while b (?c0 # rest) ?cf [] 0) = hd (dict_get ?cf ?c0)"
    and ne0: "dict_get ?cf ?c0 \<noteq> []"
    using b round_robin_while_head [of ?c0 rest ?cf b 0] by blast+
  have "hd (dict_get ?cf ?c0) \<in> set (dict_get ?cf ?c0)" using ne0 by simp
  then have "camera_folder_of (hd (dict_get ?cf ?c0)) = Some ?c0"
    by (simp add: dict_get_group_files)
  moreover have "organize_files_round_robin fl b (Some F) = round_robin_while b (?c0 # rest) ?cf [] 0"
    using S cr by (simp add: organize_unfold)
  ultimately show ?thesis using h by simp
qed

lemma sum_cameras_mset:
  assumes "distinct cams" "\<forall>f \<in> set fl. \<forall>c. camera_folder_of f = Some c \<longrightarrow> c \<in> set cams"
  shows "(\<Sum>c\<leftarrow>cams. mset (filter (\<lambda>f. camera_folder_of f = Some c) fl))
     = mset (filter (\<lambda>f. camera_folder_of f \<noteq> None) fl)"
  using assms(2)
proof (induction fl)
  case Nil
  show ?case by (induction cams) simp_all
next
  case (Cons f fl)
  then have ih: "(\<Sum>c\<leftarrow>cams. mset (filter (\<lambda>f. camera_folder_of f = Some c) fl))
     = mset (filter (\<lambda>f. camera_folder_of f \<noteq> None) fl)" by simp
  show ?case
  proof (cases "camera_folder_of f")
    case None
    then show ?thesis using ih by simp
  next
    case (Some c0)
    then have m: "c0 \<in> set cams" using Cons.prems by simp
    have "(\<Sum>c\<leftarrow>xs. mset (filter (\<lambda>f. camera_folder_of f = Some c) (f # fl)))
        = (if c0 \<in> set xs then {#f#} else {#})
          + (\<Sum>c\<leftarrow>xs. mset (filter (\<lambda>f. camera_folder_of f = Some c) fl))"
      if "distinct xs" for xs
      using that Some by (induction xs) auto
    from this [OF assms(1)] m ih Some show ?thesis by simp
  qed
qed

lemma organize_mset:
  assumes "\<forall>c. files_of_camera c fl \<le> 10000 * b"
  shows "mset (organize_files_round_robin fl b start)
     = mset (filter (\<lambda>f. camera_folder_of f \<noteq> None) fl)"
proof -
  let ?cf = "group_files fl"
  let ?cams = "reorder_cameras (sort (map fst ?cf)) start"
  have inv: "rr_inv ?cams ?cf" by (rule rr_inv_initial)
  have len: "\<forall>c. length (dict_get ?cf c) \<le> (max_iterations - 0) * b"
    using assms by (simp add: dict_get_group_files files_of_camera_def max_iterations_def)
  have d: "distinct ?cams" using inv by (simp add: rr_inv_def)
  have s: "\<forall>f \<in> set fl. \<forall>c. camera_folder_of f = Some c \<longrightarrow> c \<in> set ?cams"
    using keys_group_files [of fl] by (auto simp: set_reorder_cameras)
  show ?thesis
    using round_robin_while_mset [OF inv len] sum_cameras_mset [OF d s]
    by (simp add: organize_unfold dict_get_group_files)
qed

lemma organize_fair:
  assumes "files_of_camera X (take k (organize_files_round_robin fl b start)) < files_of_camera X fl"
    and "files_of_camera Y (take k (organize_files_round_robin fl b start)) < files_of_camera Y fl"
  shows "files_of_camera X (take k (organize_files_round_robin fl b start))
      \<le> files_of_camera Y (take k (organize_files_round_robin fl b start)) + b"
  using assms round_robin_while_fair [OF rr_inv_initial, of X k b fl start 0 Y]
  by (simp add: organize_unfold dict_get_group_files files_of_camera_def)

text \<open>With a single folder the loop delivers its queue up to the iteration cap.\<close>

lemma round_robin_while_single:
  assumes "rr_inv [c] cf"
  shows "round_robin_while b [c] cf [] it = take ((max_iterations - it) * b) (dict_get cf c)"
  using assms
proof (induction "max_iterations - it" arbitrary: cf it)
  case 0
  then show ?case by (simp add: round_robin_while_stop)
next
  case (Suc n)
  show ?case
  proof (cases "\<exists>files \<in> set (map snd cf). length files > 0")
    case False
    then have "dict_get cf c = []" by (rule not_any_files_all_empty)
    then show ?thesis using False by (simp add: round_robin_while_stop)
  next
    case True
    from Suc.hyps(2) have lt: "it < max_iterations" and n: "n = max_iterations - (it + 1)"
      by simp_all
    have g: "dict_get (fst (for_each_camera b [c] cf [])) c = drop b (dict_get cf c)"
      using dict_get_for_each_camera [of "[c]" b cf "[]" c] by simp
    have p: "snd (for_each_camera b [c] cf []) = take b (dict_get cf c)"
      using list_for_each_camera [of "[c]" b cf "[]"] by simp
    have "round_robin_while b [c] cf [] it =
        take b (dict_get cf c) @ take (n * b) (drop b (dict_get cf c))"
      using round_robin_while_round [OF True lt, of b "[c]"]
        Suc.hyps(1) [OF n rr_inv_step [OF Suc.prems]] g p n
      by simp
    also have "\<dots> = take (b + n * b) (dict_get cf c)" by (simp add: take_add)
    finally show ?thesis using Suc.hyps(2) by (metis mult_Suc)
  qed
qed

lemma camera_folder_of_camera_path: "camera_folder_of (camera_path n) = Some ''192.168.1.5''"
  by (simp add: camera_folder_of_def camera_path_def split_on_def startswith_def)

lemma organize_large_folder:
  "organize_files_round_robin large_folder 3 None = map camera_path [0..<30000]"
proof -
  let ?c = "''192.168.1.5''"
  have keys: "fst ` set (group_files large_folder) = {?c}"
    by (auto simp: keys_group_files large_folder_def camera_folder_of_camera_path
        intro: exI [of _ 0])
  have "sort (map fst (group_files large_folder)) = [?c]"
  proof (rule sorted_distinct_set_unique)
    show "set (sort (map fst (group_files large_folder))) = set [?c]" using keys by simp
  qed (simp_all add: distinct_keys_group_files)
  then have cams: "reorder_cameras (sort (map fst (group_files large_folder))) None = [?c]"
    by (simp add: reorder_cameras_def)
  have inv: "rr_inv [?c] (group_files large_folder)"
    using rr_inv_initial [of large_folder None] cams by simp
  have "dict_get (group_files large_folder) ?c = large_folder"
    by (simp add: dict_get_group_files large_folder_def camera_folder_of_camera_path)
  then have "organize_files_round_robin large_folder 3 None = take 30000 large_folder"
    using round_robin_while_single [OF inv, of 3 0] cams
    by (simp add: organize_unfold max_iterations_def)
  also have "\<dots> = map camera_path [0..<30000]"
    by (simp add: large_folder_def take_map take_upt)
  finally show ?thesis .
qed


lemma set_round_robin_while:
  assumes "rr_inv cams cf"
  shows "set (round_robin_while b cams cf [] it) \<subseteq> (\<Union>c \<in> set cams. set (dict_get cf c))"
  using assms
proof (induction "max_iterations - it" arbitrary: cf it)
  case 0
  then show ?case by (simp add: round_robin_while_stop)
next
  case (Suc n)
  show ?case
  proof (cases "\<exists>files \<in> set (map snd cf). length files > 0")
    case False
    then show ?thesis by (simp add: round_robin_while_stop)
  next
    case True
    from Suc.hyps(2) have lt: "it < max_iterations" and n: "n = max_iterations - (it + 1)"
      by simp_all
    let ?cf = "fst (for_each_camera b cams cf [])"
    have d: "distinct cams" using Suc.prems by (simp add: rr_inv_def)
    have "set (snd (for_each_camera b cams cf [])) \<subseteq> (\<Union>c \<in> set cams. set (dict_get cf c))"
      by (auto simp: list_for_each_camera [OF d] dest: in_set_takeD)
    moreover have "set (round_robin_while b cams ?cf [] (it + 1))
        \<subseteq> (\<Union>c \<in> set cams. set (dict_get ?cf c))"
      by (rule Suc.hyps(1) [OF n rr_inv_step [OF Suc.prems]])
    moreover have "(\<Union>c \<in> set cams. set (dict_get ?cf c)) \<subseteq> (\<Union>c \<in> set cams. set (dict_get cf c))"
      by (auto simp: dict_get_for_each_camera [OF d] dest: in_set_dropD)
    ultimately show ?thesis
      using round_robin_while_round [OF True lt, of b cams] by auto
  qed
qed

lemma organize_only_camera_files:
  "f \<in> set (organize_files_round_robin fl b start) \<Longrightarrow>
     f \<in> set fl \<and> camera_folder_of f \<noteq> None"
  using set_round_robin_while [OF rr_inv_initial, of b fl start 0]
  by (auto simp: organize_unfold dict_get_group_files)

lemma files_of_camera_le_length: "files_of_camera c fl \<le> length fl"
  by (simp add: files_of_camera_def)

lemmas rr_eval = organize_files_round_robin_def group_files_def group_file_def
  camera_folder_of_def split_on_def startswith_def dict_get_def reorder_cameras_def
  max_iterations_def files_of_camera_def round_robin_while.simps

subsection \<open>C3: continuing after the last processed folder\<close>

text \<open>
  C3, as stated, fails when the continue-after folder is the only folder: the rotation
  index wraps to 0 and the produced order begins with that folder itself.
\<close>

theorem round_robin_single_folder_restarts_same:
  "organize_files_round_robin [''/src/192.168.1.5/a.dav''] 3 (Some ''192.168.1.5'')
     = [''/src/192.168.1.5/a.dav''] \<and>
   camera_folder_of (hd (organize_files_round_robin [''/src/192.168.1.5/a.dav''] 3
       (Some ''192.168.1.5''))) = Some ''192.168.1.5''"
  by (simp add: rr_eval)

text \<open>
  C3, amended: for a positive batch size, a pending file list and a folder \<open>F\<close> that is
  supplied as the continue-after folder and occurs among the grouped folders (at
  position \<open>i\<close> of the sorted folder list), the produced order is not empty and begins
  with a file of the folder at position \<open>(i + 1) mod n\<close> of the sorted folder list, the
  one following \<open>F\<close> with wrap-around; it does not begin with \<open>F\<close> when there is more
  than one folder.
\<close>

theorem round_robin_starts_after_last_folder:
  fixes file_list :: "string list" and b :: nat and F :: string
  defines "folders \<equiv> sort (remdups (List.map_filter camera_folder_of file_list))"
  defines "out \<equiv> organize_files_round_robin file_list b (Some F)"
  assumes "i < length folders" and "folders ! i = F" and "0 < b"
  shows "out \<noteq> [] \<and>
     camera_folder_of (hd out) = Some (folders ! ((i + 1) mod length folders)) \<and>
     (1 < length folders \<longrightarrow> camera_folder_of (hd out) \<noteq> Some F)"
proof -
  have h: "out \<noteq> [] \<and>
     camera_folder_of (hd out) = Some (folders ! ((i + 1) mod length folders))"
    unfolding out_def folders_def
    using assms(3-5) unfolding folders_def by (rule organize_head)
  have d: "distinct folders" by (simp add: folders_def)
  have "folders ! ((i + 1) mod length folders) \<noteq> F" if "1 < length folders"
  proof -
    have "(i + 1) mod length folders \<noteq> i"
      using that assms(3) by (cases "i + 1 = length folders") auto
    moreover have "(i + 1) mod length folders < length folders"
    proof (rule mod_less_divisor)
      from that show "0 < length folders" by linarith
    qed
    ultimately show ?thesis
      using d assms(3,4) by (auto simp: nth_eq_iff_index_eq)
  qed
  with h show ?thesis by simp
qed

theorem round_robin_starts_after_last_folder_witness:
  "camera_folder_of (hd (organize_files_round_robin
      [''/s/192.168.1.2/a'', ''/s/192.168.1.10/b'', ''/s/192.168.1.2/c''] 3
      (Some ''192.168.1.10''))) = Some ''192.168.1.2'' \<and>
   camera_folder_of (hd (organize_files_round_robin
      [''/s/192.168.1.2/a'', ''/s/192.168.1.10/b'', ''/s/192.168.1.2/c''] 3
      (Some ''192.168.1.2''))) = Some ''192.168.1.10''"
proof -
  let ?fl = "[''/s/192.168.1.2/a'', ''/s/192.168.1.10/b'', ''/s/192.168.1.2/c'']"
  let ?folders = "sort (remdups (List.map_filter camera_folder_of ?fl))"
  have s: "?folders = [''192.168.1.10'', ''192.168.1.2'']"
    by (simp add: camera_folder_of_def split_on_def startswith_def)
  have a: "0 < length ?folders" "?folders ! 0 = ''192.168.1.10''"
    "1 < length ?folders" "?folders ! 1 = ''192.168.1.2''"
    unfolding s by simp_all
  have n0: "?folders ! ((0 + 1) mod length ?folders) = ''192.168.1.2''"
    and n1: "?folders ! ((1 + 1) mod length ?folders) = ''192.168.1.10''"
    unfolding s by simp_all
  have b: "0 < (3::nat)" by simp
  from round_robin_starts_after_last_folder [OF a(1,2) b]
  have "camera_folder_of (hd (organize_files_round_robin ?fl 3 (Some ''192.168.1.10'')))
      = Some (?folders ! ((0 + 1) mod length ?folders))" by blast
  moreover from round_robin_starts_after_last_folder [OF a(3,4) b]
  have "camera_folder_of (hd (organize_files_round_robin ?fl 3 (Some ''192.168.1.2'')))
      = Some (?folders ! ((1 + 1) mod length ?folders))" by blast
  ultimately show ?thesis unfolding n0 n1 by (rule conjI)
qed

subsection \<open>C4: bounded unfairness\<close>

text \<open>
  C4: take any prefix (the first \<open>k\<close> files) of the produced order and two folders
  \<open>X\<close> and \<open>Y\<close> that both still have undispatched files, that is, fewer of their
  files are in the prefix than in the input. Then the numbers of files dispatched so far
  for \<open>X\<close> and for \<open>Y\<close> differ by at most the batch size.
\<close>

theorem round_robin_bounded_unfairness:
  fixes file_list :: "string list" and b k :: nat and X Y :: string
    and start :: "string option"
  defines "dispatched \<equiv> take k (organize_files_round_robin file_list b start)"
  assumes "files_of_camera X dispatched < files_of_camera X file_list"
    and "files_of_camera Y dispatched < files_of_camera Y file_list"
  shows "files_of_camera X dispatched \<le> files_of_camera Y dispatched + b \<and>
     files_of_camera Y dispatched \<le> files_of_camera X dispatched + b"
  using assms(2,3) organize_fair [of X k file_list b start Y]
    organize_fair [of Y k file_list b start X]
  by (simp add: dispatched_def)

theorem round_robin_bounded_unfairness_witness:
  "files_of_camera ''192.168.1.2'' (take 3 (organize_files_round_robin
      [''/s/192.168.1.2/a'', ''/s/192.168.1.3/b'', ''/s/192.168.1.2/c'', ''/s/192.168.1.2/d'',
       ''/s/192.168.1.2/e'', ''/s/192.168.1.3/f''] 3 None)) = 3 \<and>
   files_of_camera ''192.168.1.3'' (take 3 (organize_files_round_robin
      [''/s/192.168.1.2/a'', ''/s/192.168.1.3/b'', ''/s/192.168.1.2/c'', ''/s/192.168.1.2/d'',
       ''/s/192.168.1.2/e'', ''/s/192.168.1.3/f''] 3 None)) = 0"
proof -
  let ?fl = "[''/s/192.168.1.2/a'', ''/s/192.168.1.3/b'', ''/s/192.168.1.2/c'',
     ''/s/192.168.1.2/d'', ''/s/192.168.1.2/e'', ''/s/192.168.1.3/f'']"
  have out: "organize_files_round_robin ?fl 3 None =
     [''/s/192.168.1.2/a'', ''/s/192.168.1.2/c'', ''/s/192.168.1.2/d'',
      ''/s/192.168.1.3/b'', ''/s/192.168.1.3/f'', ''/s/192.168.1.2/e'']"
    by (simp add: rr_eval)
  have x: "files_of_camera ''192.168.1.2'' (take 3 (organize_files_round_robin ?fl 3 None)) = 3"
    and y: "files_of_camera ''192.168.1.3'' (take 3 (organize_files_round_robin ?fl 3 None)) = 0"
    and tx: "files_of_camera ''192.168.1.2'' ?fl = 4"
    and ty: "files_of_camera ''192.168.1.3'' ?fl = 2"
    unfolding out
    by (simp_all add: files_of_camera_def camera_folder_of_def split_on_def startswith_def)
  have hx: "files_of_camera ''192.168.1.2'' (take 3 (organize_files_round_robin ?fl 3 None))
      < files_of_camera ''192.168.1.2'' ?fl" unfolding x tx by simp
  have hy: "files_of_camera ''192.168.1.3'' (take 3 (organize_files_round_robin ?fl 3 None))
      < files_of_camera ''192.168.1.3'' ?fl" unfolding y ty by simp
  from round_robin_bounded_unfairness [OF hx hy] x y show ?thesis by simp
qed

subsection \<open>C9: only files below a camera folder are scheduled\<close>

text \<open>
  C9, as stated, fails for a folder with more files than the iteration cap lets through:
  with batch size 3 the loop stops after 10000 rounds, so of 30001 files of one camera
  folder the last one is a file with a 192.168.1. component that is not in the output.
\<close>

theorem round_robin_iteration_cap_drops_file:
  "camera_folder_of (camera_path 30000) \<noteq> None \<and>
   camera_path 30000 \<in> set large_folder \<and>
   camera_path 30000 \<notin> set (organize_files_round_robin large_folder 3 None)"
proof -
  have inj: "camera_path n = camera_path m \<longleftrightarrow> n = m" for n m
    by (auto simp: camera_path_def dest: arg_cong [where f = length])
  have "camera_path 30000 \<notin> set (organize_files_round_robin large_folder 3 None)"
    unfolding organize_large_folder by (auto simp: inj)
  then show ?thesis
    by (auto simp: camera_folder_of_camera_path large_folder_def)
qed

text \<open>
  C9, amended: every file of the output is an input file whose path has a component
  that begins with 192.168.1., so a file without such a component is never scheduled;
  and when no folder holds more than 10000 times the batch size files, the output
  contains exactly the input files with such a component (as multisets: each as often as
  the input has it).
\<close>

theorem round_robin_keeps_camera_files:
  fixes file_list :: "string list" and b :: nat and start :: "string option"
  defines "out \<equiv> organize_files_round_robin file_list b start"
  shows "(\<forall>f \<in> set out. f \<in> set file_list \<and> camera_folder_of f \<noteq> None) \<and>
     ((\<forall>c. files_of_camera c file_list \<le> 10000 * b) \<longrightarrow>
        mset out = mset (filter (\<lambda>f. camera_folder_of f \<noteq> None) file_list))"
  unfolding out_def
  using organize_only_camera_files [of _ file_list b start] organize_mset [of file_list b start]
  by blast

theorem round_robin_keeps_camera_files_witness:
  "mset (organize_files_round_robin
      [''/s/192.168.1.2/a'', ''/s/other/c'', ''/s/192.168.1.10/b''] 3 None)
     = {#''/s/192.168.1.2/a'', ''/s/192.168.1.10/b''#} \<and>
   ''/s/other/c'' \<notin> set (organize_files_round_robin
      [''/s/192.168.1.2/a'', ''/s/other/c'', ''/s/192.168.1.10/b''] 3 None)"
proof -
  let ?fl = "[''/s/192.168.1.2/a'', ''/s/other/c'', ''/s/192.168.1.10/b'']"
  let ?out = "organize_files_round_robin ?fl 3 None"
  have h: "\<forall>c. files_of_camera c ?fl \<le> 10000 * 3"
  proof
    fix c
    have "files_of_camera c ?fl \<le> length ?fl" by (rule files_of_camera_le_length)
    then show "files_of_camera c ?fl \<le> 10000 * 3" by simp
  qed
  have n: "camera_folder_of ''/s/other/c'' = None"
    "camera_folder_of ''/s/192.168.1.2/a'' = Some ''192.168.1.2''"
    "camera_folder_of ''/s/192.168.1.10/b'' = Some ''192.168.1.10''"
    by (simp_all add: camera_folder_of_def split_on_def startswith_def)
  note t = round_robin_keeps_camera_files [of ?fl 3 None]
  from t have sub: "\<forall>f \<in> set ?out. f \<in> set ?fl \<and> camera_folder_of f \<noteq> None"
    by (rule conjunct1)
  from t have "(\<forall>c. files_of_camera c ?fl \<le> 10000 * 3) \<longrightarrow>
      mset ?out = mset (filter (\<lambda>f. camera_folder_of f \<noteq> None) ?fl)"
    by (rule conjunct2)
  from this h have m: "mset ?out = mset (filter (\<lambda>f. camera_folder_of f \<noteq> None) ?fl)"
    by (rule mp)
  have f: "filter (\<lambda>f. camera_folder_of f \<noteq> None) ?fl
      = [''/s/192.168.1.2/a'', ''/s/192.168.1.10/b'']"
    by (simp add: n)
  have o: "''/s/other/c'' \<notin> set ?out"
  proof
    assume "''/s/other/c'' \<in> set ?out"
    with sub have "camera_folder_of ''/s/other/c'' \<noteq> None" by (simp only: ball_simps) blast
    with n(1) show False by simp
  qed
  from m f o show ?thesis by (simp only: mset.simps) simp
qed

section \<open>The tier classifier: properties\<close>

lemmas tier_defs = tier_conservative_def tier_conservative_42_def tier_balanced_def
  tier_aggressive_def tier_maximum_def tier_ultrafast_mode_def

lemma tier_name_loop_first:
  "tier_name_loop cat s = n \<Longrightarrow>
     (\<exists>i < length cat. fst (cat ! i) = n \<and> crf (snd (cat ! i)) = crf s \<and>
         (\<forall>j < i. crf (snd (cat ! j)) \<noteq> crf s))
     \<or> (n = ''custom'' \<and> (\<forall>j < length cat. crf (snd (cat ! j)) \<noteq> crf s))"
proof (induction cat s arbitrary: n rule: tier_name_loop.induct)
  case (1 settings)
  then show ?case by simp
next
  case (2 name tier_settings rest settings)
  show ?case
  proof (cases "crf tier_settings = crf settings")
    case True
    with 2 have "n = name" by simp
    with True show ?thesis by (intro disjI1 exI [of _ 0]) simp
  next
    case False
    with 2 have r: "tier_name_loop rest settings = n" by simp
    from "2.IH" [OF False r] show ?thesis
    proof (elim disjE exE conjE)
      fix i
      assume i: "i < length rest" "fst (rest ! i) = n"
        "crf (snd (rest ! i)) = crf settings"
        "\<forall>j < i. crf (snd (rest ! j)) \<noteq> crf settings"
      have "\<forall>j < Suc i. crf (snd (((name, tier_settings) # rest) ! j)) \<noteq> crf settings"
        using False i(4) by (auto simp: less_Suc_eq_0_disj)
      with i show ?thesis by (intro disjI1 exI [of _ "Suc i"]) simp
    next
      assume c: "n = ''custom''" "\<forall>j < length rest. crf (snd (rest ! j)) \<noteq> crf settings"
      have "\<forall>j < length ((name, tier_settings) # rest).
              crf (snd (((name, tier_settings) # rest) ! j)) \<noteq> crf settings"
        using False c(2) by (auto simp: less_Suc_eq_0_disj)
      with c(1) show ?thesis by blast
    qed
  qed
qed

lemma catalog_lookup:
  "map_of compression_tiers ''conservative'' = Some tier_conservative"
  "map_of compression_tiers ''conservative-42'' = Some tier_conservative_42"
  "map_of compression_tiers ''balanced'' = Some tier_balanced"
  "map_of compression_tiers ''aggressive'' = Some tier_aggressive"
  "map_of compression_tiers ''maximum'' = Some tier_maximum"
  "map_of compression_tiers ''ultrafast_mode'' = Some tier_ultrafast_mode"
  by (simp_all add: compression_tiers_def)

lemma catalog_crfs:
  "map (\<lambda>(n, t). (n, crf t)) compression_tiers =
     [(''conservative'', 35), (''conservative-42'', 42), (''balanced'', 38),
      (''aggressive'', 35), (''maximum'', 38), (''ultrafast_mode'', 33)]"
  by (simp add: compression_tiers_def tier_defs)

subsection \<open>C5: the decision table of the classifier\<close>

text \<open>
  C5, as stated, fails: not every band and threshold combination of the decision table
  yields a catalog entry. A probe with bitrate 1000 kbps and target reduction 0.5 (speed
  priority off) gets a copy of the conservative tier with crf 22 and rate bounds
  2500k/5000k, which is none of the six catalog entries.
\<close>

theorem classifier_low_band_not_in_catalog:
  "determine_compression_tier (Some (sample_info 1000)) (1 / 2) False
     \<notin> snd ` set compression_tiers"
  by (simp add: determine_compression_tier_def sample_info_def compression_tiers_def
      tier_defs)

text \<open>
  C5, amended: with the characteristics present and speed priority off, the classifier
  returns the catalog entry named maximum for bitrate above 5000 and target reduction
  above 0.8, and for every other band and threshold combination the fixed catalog entry
  of the decision table, except in the two "already well compressed" combinations
  (bitrate in (1500, 2500] with target reduction at most 0.4, and bitrate at most 1500
  with target reduction at most 0.5), where it returns the conservative entry with crf
  overwritten by 27, respectively with crf 22 and rate bounds 2500k and 5000k.
\<close>

theorem classifier_decision_table:
  fixes vi :: video_info and tr :: rat
  defines "b \<equiv> current_bitrate vi"
  defines "r \<equiv> Some (determine_compression_tier (Some vi) tr False)"
  shows
    "(5000 < b \<and> 8 / 10 < tr \<longrightarrow> r = map_of compression_tiers ''maximum'') \<and>
     (5000 < b \<and> 6 / 10 < tr \<and> tr \<le> 8 / 10 \<longrightarrow> r = map_of compression_tiers ''aggressive'') \<and>
     (5000 < b \<and> tr \<le> 6 / 10 \<longrightarrow> r = map_of compression_tiers ''balanced'') \<and>
     (2500 < b \<and> b \<le> 5000 \<and> 7 / 10 < tr \<longrightarrow> r = map_of compression_tiers ''aggressive'') \<and>
     (2500 < b \<and> b \<le> 5000 \<and> 5 / 10 < tr \<and> tr \<le> 7 / 10 \<longrightarrow>
        r = map_of compression_tiers ''balanced'') \<and>
     (2500 < b \<and> b \<le> 5000 \<and> tr \<le> 5 / 10 \<longrightarrow> r = map_of compression_tiers ''conservative'') \<and>
     (1500 < b \<and> b \<le> 2500 \<and> 6 / 10 < tr \<longrightarrow> r = map_of compression_tiers ''balanced'') \<and>
     (1500 < b \<and> b \<le> 2500 \<and> 4 / 10 < tr \<and> tr \<le> 6 / 10 \<longrightarrow>
        r = map_of compression_tiers ''conservative'') \<and>
     (1500 < b \<and> b \<le> 2500 \<and> tr \<le> 4 / 10 \<longrightarrow>
        r = map_option (\<lambda>t. t \<lparr> crf := 27 \<rparr>) (map_of compression_tiers ''conservative'')) \<and>
     (b \<le> 1500 \<and> 5 / 10 < tr \<longrightarrow> r = map_of compression_tiers ''conservative'') \<and>
     (b \<le> 1500 \<and> tr \<le> 5 / 10 \<longrightarrow>
        r = map_option (\<lambda>t. t \<lparr> crf := 22, vbv_maxrate := ''2500k'', vbv_bufsize := ''5000k'' \<rparr>)
              (map_of compression_tiers ''conservative''))"
  unfolding b_def r_def
  by (simp add: determine_compression_tier_def catalog_lookup)

theorem classifier_decision_table_witness:
  "determine_compression_tier (Some (sample_info 6000)) (9 / 10) False = tier_maximum \<and>
   determine_compression_tier (Some (sample_info 6000)) (7 / 10) False = tier_aggressive \<and>
   determine_compression_tier (Some (sample_info 6000)) (1 / 2) False = tier_balanced \<and>
   determine_compression_tier (Some (sample_info 3000)) (9 / 10) False = tier_aggressive \<and>
   determine_compression_tier (Some (sample_info 3000)) (6 / 10) False = tier_balanced \<and>
   determine_compression_tier (Some (sample_info 3000)) (1 / 2) False = tier_conservative \<and>
   determine_compression_tier (Some (sample_info 2000)) (7 / 10) False = tier_balanced \<and>
   determine_compression_tier (Some (sample_info 2000)) (1 / 2) False = tier_conservative \<and>
   determine_compression_tier (Some (sample_info 2000)) (3 / 10) False
     = tier_conservative \<lparr> crf := 27 \<rparr> \<and>
   determine_compression_tier (Some (sample_info 1000)) (7 / 10) False = tier_conservative \<and>
   determine_compression_tier (Some (sample_info 1000)) (1 / 2) False
     = tier_conservative \<lparr> crf := 22, vbv_maxrate := ''2500k'', vbv_bufsize := ''5000k'' \<rparr>"
  using classifier_decision_table [of "sample_info 6000" "9 / 10"]
    classifier_decision_table [of "sample_info 6000" "7 / 10"]
    classifier_decision_table [of "sample_info 6000" "1 / 2"]
    classifier_decision_table [of "sample_info 3000" "9 / 10"]
    classifier_decision_table [of "sample_info 3000" "6 / 10"]
    classifier_decision_table [of "sample_info 3000" "1 / 2"]
    classifier_decision_table [of "sample_info 2000" "7 / 10"]
    classifier_decision_table [of "sample_info 2000" "1 / 2"]
    classifier_decision_table [of "sample_info 2000" "3 / 10"]
    classifier_decision_table [of "sample_info 1000" "7 / 10"]
    classifier_decision_table [of "sample_info 1000" "1 / 2"]
  by (simp add: sample_info_def catalog_lookup)

subsection \<open>C10: tier-name recovery by crf\<close>

text \<open>
  C10: \<open>_get_tier_name\<close> returns the name of the first catalog entry, in insertion
  order, whose crf equals the crf of the given settings (and custom when there is none);
  it looks at no other field. The catalog repeats crf values (35 for conservative and
  aggressive, 38 for balanced and maximum), so the entry selected as maximum is reported
  as balanced and the entry selected as aggressive as conservative.
\<close>

theorem get_tier_name_first_crf_match:
  "((\<exists>i < length compression_tiers.
        fst (compression_tiers ! i) = get_tier_name s \<and>
        crf (snd (compression_tiers ! i)) = crf s \<and>
        (\<forall>j < i. crf (snd (compression_tiers ! j)) \<noteq> crf s))
    \<or> (get_tier_name s = ''custom'' \<and>
        (\<forall>j < length compression_tiers. crf (snd (compression_tiers ! j)) \<noteq> crf s))) \<and>
   get_tier_name (s \<lparr> vbv_maxrate := m, vbv_bufsize := u \<rparr>) = get_tier_name s \<and>
   crf tier_conservative = crf tier_aggressive \<and> crf tier_balanced = crf tier_maximum \<and>
   map_of compression_tiers ''maximum'' = Some tier_maximum \<and>
   get_tier_name tier_maximum = ''balanced'' \<and>
   map_of compression_tiers ''aggressive'' = Some tier_aggressive \<and>
   get_tier_name tier_aggressive = ''conservative''"
proof -
  have first: "(\<exists>i < length compression_tiers.
        fst (compression_tiers ! i) = get_tier_name s \<and>
        crf (snd (compression_tiers ! i)) = crf s \<and>
        (\<forall>j < i. crf (snd (compression_tiers ! j)) \<noteq> crf s))
    \<or> (get_tier_name s = ''custom'' \<and>
        (\<forall>j < length compression_tiers. crf (snd (compression_tiers ! j)) \<noteq> crf s))"
    using tier_name_loop_first [of compression_tiers s "get_tier_name s"]
    by (simp add: get_tier_name_def)
  have only_crf: "tier_name_loop cat (s \<lparr> vbv_maxrate := m, vbv_bufsize := u \<rparr>)
      = tier_name_loop cat s" for cat
    by (induction cat s rule: tier_name_loop.induct) simp_all
  have names: "get_tier_name tier_maximum = ''balanced''"
    "get_tier_name tier_aggressive = ''conservative''"
    by (simp_all add: get_tier_name_def compression_tiers_def tier_defs)
  have dup: "crf tier_conservative = crf tier_aggressive" "crf tier_balanced = crf tier_maximum"
    by (simp_all add: tier_defs)
  show ?thesis
    using first only_crf [of compression_tiers] names dup
    by (simp add: get_tier_name_def catalog_lookup)
qed

theorem get_tier_name_first_crf_match_witness:
  "get_tier_name (tier_conservative \<lparr> crf := 22 \<rparr>) = ''custom'' \<and>
   get_tier_name tier_ultrafast_mode = ''ultrafast_mode'' \<and>
   get_tier_name tier_maximum = ''balanced''"
  using get_tier_name_first_crf_match [of "tier_conservative \<lparr> crf := 22 \<rparr>"]
    get_tier_name_first_crf_match [of tier_ultrafast_mode]
  by (simp add: get_tier_name_def compression_tiers_def tier_defs)

section \<open>Scan strategy: properties\<close>

lemmas scan_defs = scan_cycle_def scan_for_new_files_def incremental_scan_def
  full_directory_scan_def should_full_scan_def force_full_def chosen_strategy_def

subsection \<open>C8: when a full scan is made\<close>

text \<open>
  C8, as stated, fails in the direction "only if": when none of the three conditions
  holds the orchestrator starts an incremental scan, and that scan runs the full
  directory scan itself when listing the source folder fails. Here the last full scan was
  at 1000, the clock reads 1100, the cycle counter is 1 and the listing fails.
\<close>

theorem full_scan_by_fallback:
  "Full_scan \<in> set (fst (scan_cycle
       \<lparr> last_full_scan_time = 1000, full_scan_interval = 600, scan_counter = 1 \<rparr>
       1100 1100 False)) \<and>
   last_full_scan_time
       \<lparr> last_full_scan_time = 1000, full_scan_interval = 600, scan_counter = 1 \<rparr> \<noteq> 0 \<and>
   scan_counter
       \<lparr> last_full_scan_time = 1000, full_scan_interval = 600, scan_counter = 1 \<rparr> mod 50 \<noteq> 0 \<and>
   \<not> (1100 - last_full_scan_time
       \<lparr> last_full_scan_time = 1000, full_scan_interval = 600, scan_counter = 1 \<rparr> > 600)"
  by (simp add: scan_defs)

text \<open>
  C8, amended: on every scan cycle the orchestrator chooses the full scan if and only if
  no full scan has been stamped yet (\<open>last_full_scan_time\<close> is 0, the very first
  cycle), or the scan-cycle counter is a multiple of 50, or more than 600 seconds have
  elapsed since the last full scan at one of the cycle's two clock readings; in all other
  cases it chooses the incremental scan. A full directory scan is run if and only if
  it is chosen or the incremental scan's listing of the source folder fails.
\<close>

theorem scan_strategy_selection:
  fixes st :: scan_state and now current_time :: rat and listing_ok :: bool
  defines "due \<equiv> last_full_scan_time st = 0 \<or> scan_counter st mod 50 = 0 \<or>
     now - last_full_scan_time st > 600 \<or> current_time - last_full_scan_time st > 600"
  assumes "full_scan_interval st = 600"
  shows "(chosen_strategy st now current_time listing_ok = Full_scan \<longleftrightarrow> due) \<and>
     (chosen_strategy st now current_time listing_ok = Incremental_scan \<longleftrightarrow> \<not> due) \<and>
     (Full_scan \<in> set (fst (scan_cycle st now current_time listing_ok))
        \<longleftrightarrow> due \<or> \<not> listing_ok) \<and>
     (Incremental_scan \<in> set (fst (scan_cycle st now current_time listing_ok)) \<longleftrightarrow> \<not> due)"
  using assms(2) unfolding due_def
  by (auto simp: scan_defs split: prod.splits)

theorem scan_strategy_selection_witness:
  "fst (scan_cycle initial_scan_state 1700000000 1700000001 True) = [Full_scan] \<and>
   fst (scan_cycle \<lparr> last_full_scan_time = 1000, full_scan_interval = 600, scan_counter = 7 \<rparr>
          1100 1101 True) = [Incremental_scan] \<and>
   fst (scan_cycle \<lparr> last_full_scan_time = 1000, full_scan_interval = 600, scan_counter = 50 \<rparr>
          1100 1101 True) = [Full_scan] \<and>
   fst (scan_cycle \<lparr> last_full_scan_time = 1000, full_scan_interval = 600, scan_counter = 7 \<rparr>
          1601 1602 True) = [Full_scan]"
proof -
  have i: "full_scan_interval initial_scan_state = 600"
    "full_scan_interval \<lparr> last_full_scan_time = 1000, full_scan_interval = 600, scan_counter = n \<rparr> = 600"
    for n by (simp_all add: initial_scan_state_def)
  show ?thesis
    using scan_strategy_selection [OF i(1), of 1700000000 1700000001 True]
      scan_strategy_selection [OF i(2), of 7 1100 1101 True]
      scan_strategy_selection [OF i(2), of 50 1100 1101 True]
      scan_strategy_selection [OF i(2), of 7 1601 1602 True]
    by (simp add: scan_defs initial_scan_state_def)
qed

section \<open>The CPU throttle controller: properties\<close>

declare bit_length.simps [simp del]


lemma float_constants:
  "alpha = 5404319552844595 / 18014398509481984"
  "fsub 1 alpha = 3152519739159347 / 4503599627370496"
  "min_on = 5404319552844595 / 9007199254740992"
  "min_off = 3602879701896397 / 9007199254740992"
  unfolding alpha_def min_on_def min_off_def by code_simp+

lemma ema_throttle_step:
  "ema (throttle_step limit th (p, now)) = Some (next_ema (ema th) p)"
  by (simp add: throttle_step_def Let_def)

lemma throttle_step_last_switch:
  "last_switch (throttle_step limit th (p, now)) =
     (if state (throttle_step limit th (p, now)) \<noteq> state th then now else last_switch th)"
  by (simp add: throttle_step_def Let_def)

lemma throttle_step_guard_on:
  "state th = On \<Longrightarrow>
   state (throttle_step limit th (p, now)) = Off \<longleftrightarrow>
     next_ema (ema th) p > limit \<and> fsub now (last_switch th) \<ge> min_on"
  by (simp add: throttle_step_def Let_def)

lemma throttle_step_guard_off:
  "state th = Off \<Longrightarrow>
   state (throttle_step limit th (p, now)) = On \<longleftrightarrow>
     next_ema (ema th) p < fsub limit 10 \<and> fsub now (last_switch th) \<ge> min_off"
  by (simp add: throttle_step_def Let_def hysteresis_def)

lemma throttle_step_guard:
  assumes "state (throttle_step limit th (p, now)) \<noteq> state th"
  shows "fsub now (last_switch th) \<ge> (case state (throttle_step limit th (p, now)) of
            Off \<Rightarrow> min_on | On \<Rightarrow> min_off)"
  using assms by (auto simp: throttle_step_def Let_def split: if_splits)

lemma snd_throttle_loop_Cons:
  "snd (throttle_loop limit th ((p, now) # samples)) =
     (if state (throttle_step limit th (p, now)) \<noteq> state th
      then (now, state (throttle_step limit th (p, now)))
             # snd (throttle_loop limit (throttle_step limit th (p, now)) samples)
      else snd (throttle_loop limit (throttle_step limit th (p, now)) samples))"
  by (simp add: Let_def split: prod.splits)

lemma fst_throttle_loop_Cons:
  "fst (throttle_loop limit th (sample # samples)) =
     fst (throttle_loop limit (throttle_step limit th sample) samples)"
  by (simp add: Let_def split: prod.splits)

lemma throttle_loop_dwell:
  "dwell_ok (last_switch th) (snd (throttle_loop limit th samples)) \<and>
   alternates (state th) (snd (throttle_loop limit th samples))"
proof (induction samples arbitrary: th)
  case Nil
  show ?case by simp
next
  case (Cons sample samples)
  obtain p now where s: "sample = (p, now)" by (cases sample)
  let ?th = "throttle_step limit th (p, now)"
  have ih: "dwell_ok (last_switch ?th) (snd (throttle_loop limit ?th samples))"
    "alternates (state ?th) (snd (throttle_loop limit ?th samples))"
    using Cons.IH [of ?th] by simp_all
  show ?case
  proof (cases "state ?th = state th")
    case True
    then show ?thesis
      using ih throttle_step_last_switch [of limit th p now]
      unfolding s snd_throttle_loop_Cons by simp
  next
    case False
    then show ?thesis
      using ih throttle_step_last_switch [of limit th p now]
        throttle_step_guard [OF False]
      unfolding s snd_throttle_loop_Cons by simp
  qed
qed

lemma fst_throttle_loop_snoc:
  "fst (throttle_loop limit th (pre @ [x])) =
     throttle_step limit (fst (throttle_loop limit th pre)) x"
  by (induction pre arbitrary: th) (simp_all add: fst_throttle_loop_Cons del: throttle_loop.simps(2))

lemma snd_throttle_loop_snoc:
  "snd (throttle_loop limit th (pre @ [(p, now)])) =
     snd (throttle_loop limit th pre) @
     (if state (throttle_step limit (fst (throttle_loop limit th pre)) (p, now))
           \<noteq> state (fst (throttle_loop limit th pre))
      then [(now, state (throttle_step limit (fst (throttle_loop limit th pre)) (p, now)))]
      else [])"
proof (induction pre arbitrary: th)
  case Nil
  show ?case by (simp add: Let_def)
next
  case (Cons a pre)
  obtain q t where a: "a = (q, t)" by (cases a)
  show ?case
    unfolding a append_Cons snd_throttle_loop_Cons fst_throttle_loop_Cons
    using Cons.IH [of "throttle_step limit th (q, t)"] by simp
qed

lemma ema_throttle_loop:
  "ema (fst (throttle_loop limit th samples)) =
     foldl (\<lambda>e sys_pct. Some (next_ema e sys_pct)) (ema th) (map fst samples)"
proof (induction samples arbitrary: th)
  case Nil
  show ?case by simp
next
  case (Cons a samples)
  obtain q t where a: "a = (q, t)" by (cases a)
  show ?case
    unfolding a fst_throttle_loop_Cons Cons.IH by (simp add: ema_throttle_step)
qed

lemma last_switch_throttle_loop:
  "last_switch (fst (throttle_loop limit th samples)) =
     last (last_switch th # map fst (snd (throttle_loop limit th samples)))"
proof (induction samples arbitrary: th)
  case Nil
  show ?case by simp
next
  case (Cons a samples)
  obtain q t where a: "a = (q, t)" by (cases a)
  show ?case
    unfolding a fst_throttle_loop_Cons snd_throttle_loop_Cons Cons.IH
    using throttle_step_last_switch [of limit th q t] by simp
qed

subsection \<open>C7: guards and dwell times of the run-state transitions\<close>

text \<open>
  C7. Take any samples \<open>pre\<close> already processed and the next sample \<open>sys_pct\<close> with
  its clock reading \<open>now\<close>; \<open>th\<close> is the worker's state before and \<open>th'\<close> its
  state after that pass. The value the guards compare is the exponential moving average
  of all load samples so far, updated in every pass. From on (running) the state changes
  to off (suspended) exactly when that average exceeds the ceiling and the time elapsed
  since the last switch is at least 0.6 s; from off it changes to on exactly when the
  average is below the ceiling minus 10 and the elapsed time is at least 0.4 s. The last
  switch is the last transition made (the start of the worker before the first), and a
  pass adds a transition only when the state changes. Hence, for every sequence of
  samples, the transitions alternate between suspending and resuming and keep the dwell
  times. Averages, differences and the constants 0.3, 0.6 and 0.4 are those of the
  source's float arithmetic.
\<close>

theorem throttle_transitions_respect_dwell:
  fixes limit started sys_pct now :: rat and pre samples :: "(rat \<times> rat) list"
  defines "th \<equiv> fst (cpu_throttle_worker limit started pre)"
  defines "th' \<equiv> fst (cpu_throttle_worker limit started (pre @ [(sys_pct, now)]))"
  defines "average \<equiv> next_ema (moving_average (map fst pre)) sys_pct"
  shows "ema th = moving_average (map fst pre) \<and>
     ema th' = Some average \<and>
     Some average = moving_average (map fst pre @ [sys_pct]) \<and>
     (state th = On \<longrightarrow>
        (state th' = Off \<longleftrightarrow> average > limit \<and> fsub now (last_switch th) \<ge> min_on)) \<and>
     (state th = Off \<longrightarrow>
        (state th' = On \<longleftrightarrow>
           average < fsub limit 10 \<and> fsub now (last_switch th) \<ge> min_off)) \<and>
     last_switch th = last (started # map fst (snd (cpu_throttle_worker limit started pre))) \<and>
     last_switch th' = (if state th' \<noteq> state th then now else last_switch th) \<and>
     snd (cpu_throttle_worker limit started (pre @ [(sys_pct, now)])) =
        snd (cpu_throttle_worker limit started pre) @
        (if state th' \<noteq> state th then [(now, state th')] else []) \<and>
     dwell_ok started (snd (cpu_throttle_worker limit started samples)) \<and>
     alternates On (snd (cpu_throttle_worker limit started samples))"
proof -
  let ?i = "throttle_init started"
  have step: "th' = throttle_step limit th (sys_pct, now)"
    by (simp add: th_def th'_def cpu_throttle_worker_def fst_throttle_loop_snoc)
  have e: "ema th = moving_average (map fst pre)"
    by (simp add: th_def cpu_throttle_worker_def ema_throttle_loop moving_average_def
        throttle_init_def)
  have e': "ema th' = Some average"
    by (simp add: step ema_throttle_step e average_def)
  have m: "Some average = moving_average (map fst pre @ [sys_pct])"
    by (simp add: average_def moving_average_def)
  have on: "state th = On \<longrightarrow>
      (state th' = Off \<longleftrightarrow> average > limit \<and> fsub now (last_switch th) \<ge> min_on)"
    using throttle_step_guard_on [of th limit sys_pct now]
    by (simp add: step average_def e)
  have off: "state th = Off \<longrightarrow>
      (state th' = On \<longleftrightarrow> average < fsub limit 10 \<and> fsub now (last_switch th) \<ge> min_off)"
    using throttle_step_guard_off [of th limit sys_pct now]
    by (simp add: step average_def e)
  have ls: "last_switch th = last (started # map fst (snd (cpu_throttle_worker limit started pre)))"
    using last_switch_throttle_loop [of limit ?i pre]
    by (simp add: th_def cpu_throttle_worker_def throttle_init_def)
  have ls': "last_switch th' = (if state th' \<noteq> state th then now else last_switch th)"
    unfolding step by (rule throttle_step_last_switch)
  have tr: "snd (cpu_throttle_worker limit started (pre @ [(sys_pct, now)])) =
        snd (cpu_throttle_worker limit started pre) @
        (if state th' \<noteq> state th then [(now, state th')] else [])"
    unfolding step unfolding th_def cpu_throttle_worker_def
    by (rule snd_throttle_loop_snoc)
  have dw: "dwell_ok started (snd (cpu_throttle_worker limit started samples)) \<and>
      alternates On (snd (cpu_throttle_worker limit started samples))"
    using throttle_loop_dwell [of ?i limit samples]
    by (simp add: cpu_throttle_worker_def throttle_init_def)
  from e e' m on off ls ls' tr dw show ?thesis by blast
qed

theorem throttle_transitions_respect_dwell_witness:
  "cpu_throttle_worker 85 0 [(189 / 2, 1)]
     = (\<lparr> ema = Some (189 / 2), state = Off, last_switch = 1 \<rparr>, [(1, Off)]) \<and>
   next_ema (Some (189 / 2)) (59 / 2) = 5277655813324799 / 70368744177664 \<and>
   5277655813324799 / 70368744177664 < fsub 85 10 \<and>
   cpu_throttle_worker 85 0 [(189 / 2, 1), (59 / 2, 2)]
     = (\<lparr> ema = Some (5277655813324799 / 70368744177664), state = On, last_switch = 2 \<rparr>,
        [(1, Off), (2, On)])"
proof -
  have r1: "cpu_throttle_worker 85 0 [(189 / 2, 1)]
     = (\<lparr> ema = Some (189 / 2), state = Off, last_switch = 1 \<rparr>, [(1, Off)])"
    by code_simp
  have r2: "cpu_throttle_worker 85 0 [(189 / 2, 1), (59 / 2, 2)]
     = (\<lparr> ema = Some (5277655813324799 / 70368744177664), state = On, last_switch = 2 \<rparr>,
        [(1, Off), (2, On)])"
    by code_simp
  note t = throttle_transitions_respect_dwell
    [where limit = 85 and started = 0 and pre = "[(189 / 2, 1)]" and sys_pct = "59 / 2"
       and now = 2 and samples = "[(189 / 2, 1), (59 / 2, 2)]"]
  from t have a: "Some (next_ema (moving_average (map fst [(189 / 2, 1 :: rat)])) (59 / 2))
       = ema (fst (cpu_throttle_worker 85 0 ([(189 / 2, 1)] @ [(59 / 2, 2)])))"
    by simp
  from t have m: "ema (fst (cpu_throttle_worker 85 0 [(189 / 2, 1)]))
       = moving_average (map fst [(189 / 2, 1 :: rat)])"
    by simp
  from m have m': "moving_average [189 / 2 :: rat] = Some (189 / 2)"
    by (simp add: r1)
  from a have avg: "next_ema (Some (189 / 2)) (59 / 2) = 5277655813324799 / 70368744177664"
    by (simp add: m' r2)
  from t have "state (fst (cpu_throttle_worker 85 0 [(189 / 2, 1)])) = Off \<longrightarrow>
      (state (fst (cpu_throttle_worker 85 0 ([(189 / 2, 1)] @ [(59 / 2, 2)]))) = On \<longleftrightarrow>
         next_ema (moving_average (map fst [(189 / 2, 1 :: rat)])) (59 / 2) < fsub 85 10 \<and>
         fsub 2 (last_switch (fst (cpu_throttle_worker 85 0 [(189 / 2, 1)]))) \<ge> min_off)"
    by blast
  then have "5277655813324799 / 70368744177664 < fsub 85 10"
    by (simp add: r1 r2 m' avg)
  with r1 r2 avg show ?thesis by simp
qed

section \<open>The encode supervisor: properties\<close>

lemmas supervisor_defs = run_ffmpeg_def after_loop_def teardown_def kill_process_def
  kill_def suspend_def resume_def alive_def stuck_timeout_def






lemma elapsed_examples:
  "fsub 1000 0 = 1000" "fsub 100 0 = 100" "fsub 1 0 = 1" "fsub 2 1 = 1"
  by code_simp+

subsection \<open>C1: stall detection\<close>

text \<open>
  C1 on the code: the stall check is made in the body of the loop over the lines of
  \<open>process.stdout\<close>, so it is made when a line arrives and not otherwise. An encoder
  that stays alive and writes no line at all (whether the throttle worker suspends and
  resumes it or not) leaves the supervisor waiting in the read: it is not killed and no
  stall failure is raised, however long it lasts. When lines do arrive, the kill comes
  with the first line read more than 60 s after the last progress: here at 1000 s.
\<close>

theorem silent_encoder_is_never_killed:
  "run_ffmpeg dur started [] Silent
     = (Blocked, \<lparr> proc = Running, last_progress_time = started, effects = [] \<rparr>) \<and>
   run_ffmpeg dur started [Throttle_suspend, Throttle_resume] Silent
     = (Blocked, \<lparr> proc = Running, last_progress_time = started, effects = [] \<rparr>) \<and>
   run_ffmpeg 120 0 [Line 1000 False ''progress=continue\<newline>''] Silent
     = (Raised_stuck, \<lparr> proc = Killed, last_progress_time = 0, effects = [Kill_process] \<rparr>)"
  by (simp add: supervisor_defs elapsed_examples)

subsection \<open>C2: no suspended encoder after the supervisor has ended\<close>



section \<open>Python floats: properties of rounding\<close>

lemma pow2_powi: "pow2 e = 2 powi e"
  by (simp add: pow2_def power_int_def inverse_eq_divide power_divide)

lemma pow2_pos: "0 < pow2 e"
  by (simp add: pow2_powi)

lemma pow2_add: "pow2 (a + b) = pow2 a * pow2 b"
  by (simp add: pow2_powi power_int_add)

lemma pow2_mono: "a \<le> b \<Longrightarrow> pow2 a \<le> pow2 b"
  by (simp add: pow2_powi power_int_increasing)

lemma pow2_strict_mono: "a < b \<Longrightarrow> pow2 a < pow2 b"
  by (simp add: pow2_powi power_int_strict_increasing)

lemma pow2_nat: "pow2 (int n) = 2 ^ n"
  by (simp add: pow2_def)

lemma bit_length_nonneg: "0 \<le> bit_length n"
proof (induction n rule: bit_length.induct)
  case (1 n)
  show ?case
  proof (cases "n \<le> 0")
    case True
    then show ?thesis by (subst bit_length.simps) simp
  next
    case False
    with 1 have "0 \<le> bit_length (n div 2)" by simp
    with False show ?thesis by (subst bit_length.simps) simp
  qed
qed

lemma bit_length_step: "0 < n \<Longrightarrow> bit_length n = 1 + bit_length (n div 2)"
  by (subst bit_length.simps) simp

lemma bit_length_pos: "0 < n \<Longrightarrow> 1 \<le> bit_length n"
  using bit_length_nonneg [of "n div 2"] by (simp add: bit_length_step)

lemma bit_length_bounds:
  "0 < n \<Longrightarrow> 2 ^ nat (bit_length n - 1) \<le> n \<and> n < 2 ^ nat (bit_length n)"
proof (induction n rule: bit_length.induct)
  case (1 n)
  show ?case
  proof (cases "n = 1")
    case True
    have "bit_length 0 = 0" by (subst bit_length.simps) simp
    then have "bit_length 1 = 1" by (simp add: bit_length_step)
    with True show ?thesis by simp
  next
    case False
    with 1(2) have h: "0 < n div 2" by simp
    from 1(2) have n0: "\<not> n \<le> 0" by simp
    note ih = 1(1) [OF n0 h]
    let ?b = "bit_length (n div 2)"
    have b1: "1 \<le> ?b" by (rule bit_length_pos [OF h])
    have bl: "bit_length n = 1 + ?b" by (rule bit_length_step [OF 1(2)])
    have e1: "nat (bit_length n - 1) = Suc (nat (?b - 1))" using b1 bl by simp
    have e2: "nat (bit_length n) = Suc (nat ?b)" using b1 bl by simp
    from ih have "2 * 2 ^ nat (?b - 1) \<le> 2 * (n div 2)" by simp
    also have "\<dots> \<le> n" by simp
    finally have lo: "2 ^ nat (bit_length n - 1) \<le> n" by (simp add: e1)
    from ih have "n div 2 + 1 \<le> 2 ^ nat ?b" by simp
    then have "2 * (n div 2) + 2 \<le> 2 * 2 ^ nat ?b" by simp
    moreover have "n < 2 * (n div 2) + 2" by simp
    ultimately have hi: "n < 2 ^ nat (bit_length n)" by (simp add: e2)
    from lo hi show ?thesis ..
  qed
qed

lemma of_int_bit_length_bounds:
  assumes "0 < n"
  shows "pow2 (bit_length n - 1) \<le> of_int n" "of_int n < pow2 (bit_length n)"
proof -
  from bit_length_pos [OF assms] have b: "0 \<le> bit_length n - 1" "0 \<le> bit_length n" by simp_all
  from bit_length_bounds [OF assms]
  have lo: "(2::int) ^ nat (bit_length n - 1) \<le> n" and hi: "n < 2 ^ nat (bit_length n)" by simp_all
  from lo have "of_int ((2::int) ^ nat (bit_length n - 1)) \<le> (of_int n :: rat)"
    by (simp only: of_int_le_iff)
  then show "pow2 (bit_length n - 1) \<le> of_int n" using b by (simp add: pow2_def)
  from hi have "(of_int n :: rat) < of_int ((2::int) ^ nat (bit_length n))"
    by (simp only: of_int_less_iff)
  then show "of_int n < pow2 (bit_length n)" using b by (simp add: pow2_def)
qed

lemma binary_exponent_bounds:
  assumes "0 < x"
  shows "pow2 (binary_exponent x) \<le> x \<and> x < pow2 (binary_exponent x + 1)"
proof -
  obtain n d where q: "quotient_of x = (n, d)" by (cases "quotient_of x")
  then have d: "0 < d" by (rule quotient_of_denom_pos)
  from q have x: "x = of_int n / of_int d" by (rule quotient_of_div)
  with assms d have n: "0 < n" by (simp add: zero_less_divide_iff)
  let ?e = "bit_length n - bit_length d"
  note bn = of_int_bit_length_bounds [OF n] and bd = of_int_bit_length_bounds [OF d]
  have dpos: "0 < (of_int d :: rat)" using d by simp
  have "pow2 (?e - 1) * of_int d < pow2 (?e - 1) * pow2 (bit_length d)"
    using bd(2) pow2_pos by (intro mult_strict_left_mono)
  also have "\<dots> = pow2 (bit_length n - 1)" by (simp flip: pow2_add)
  also have "\<dots> \<le> of_int n" by (rule bn(1))
  finally have lo: "pow2 (?e - 1) < x" using dpos by (simp add: x pos_less_divide_eq)
  have "of_int n < pow2 (bit_length n)" by (rule bn(2))
  also have "\<dots> = pow2 (?e + 1) * pow2 (bit_length d - 1)" by (simp flip: pow2_add)
  also have "\<dots> \<le> pow2 (?e + 1) * of_int d"
    using bd(1) pow2_pos [of "?e + 1"] by (intro mult_left_mono) simp_all
  finally have hi: "x < pow2 (?e + 1)" using dpos by (simp add: x pos_divide_less_eq)
  have e: "binary_exponent x = (if x < pow2 ?e then ?e - 1 else ?e)"
    by (simp add: binary_exponent_def q Let_def)
  show ?thesis
  proof (cases "x < pow2 ?e")
    case True
    with lo e show ?thesis by simp
  next
    case False
    with hi e show ?thesis by simp
  qed
qed

lemma binary_exponent_mono:
  assumes "0 < x" "x \<le> y"
  shows "binary_exponent x \<le> binary_exponent y"
proof (rule ccontr)
  assume "\<not> binary_exponent x \<le> binary_exponent y"
  then have "binary_exponent y + 1 \<le> binary_exponent x" by simp
  then have "pow2 (binary_exponent y + 1) \<le> pow2 (binary_exponent x)" by (rule pow2_mono)
  moreover have "y < pow2 (binary_exponent y + 1)"
    using binary_exponent_bounds [of y] assms by simp
  moreover have "pow2 (binary_exponent x) \<le> x"
    using binary_exponent_bounds [OF assms(1)] by simp
  ultimately show False using assms(2) by simp
qed

lemma binary_exponent_unique:
  assumes "pow2 e \<le> x" "x < pow2 (e + 1)"
  shows "binary_exponent x = e"
proof -
  have x: "0 < x" using assms(1) pow2_pos [of e] by simp
  note b = binary_exponent_bounds [OF x]
  have "\<not> binary_exponent x + 1 \<le> e"
  proof
    assume "binary_exponent x + 1 \<le> e"
    then have "pow2 (binary_exponent x + 1) \<le> pow2 e" by (rule pow2_mono)
    with b assms(1) show False by simp
  qed
  moreover have "\<not> e + 1 \<le> binary_exponent x"
  proof
    assume "e + 1 \<le> binary_exponent x"
    then have "pow2 (e + 1) \<le> pow2 (binary_exponent x)" by (rule pow2_mono)
    with b assms(2) show False by simp
  qed
  ultimately show ?thesis by simp
qed

lemma round_half_even_of_int: "round_half_even (of_int n) = n"
  by (simp add: round_half_even_def)

lemma round_half_even_mono:
  assumes "x \<le> y"
  shows "round_half_even x \<le> round_half_even y"
proof (cases "\<lfloor>x\<rfloor> = \<lfloor>y\<rfloor>")
  case True
  then show ?thesis using assms
    by (auto simp: round_half_even_def Let_def)
next
  case False
  with assms have "\<lfloor>x\<rfloor> < \<lfloor>y\<rfloor>" using floor_mono [OF assms] by simp
  then have "\<lfloor>x\<rfloor> + 1 \<le> \<lfloor>y\<rfloor>" by simp
  moreover have "round_half_even x \<le> \<lfloor>x\<rfloor> + 1"
    by (simp add: round_half_even_def Let_def)
  moreover have "\<lfloor>y\<rfloor> \<le> round_half_even y"
    by (simp add: round_half_even_def Let_def)
  ultimately show ?thesis by simp
qed

lemma round_half_even_ge: "of_int N \<le> z \<Longrightarrow> N \<le> round_half_even z"
  using round_half_even_mono [of "of_int N" z] by (simp add: round_half_even_of_int)

lemma round_half_even_le: "z \<le> of_int N \<Longrightarrow> round_half_even z \<le> N"
  using round_half_even_mono [of z "of_int N"] by (simp add: round_half_even_of_int)

lemma round_to_double_pos:
  "0 < x \<Longrightarrow> round_to_double x =
     of_int (round_half_even (x / pow2 (max (binary_exponent x - 52) (- 1074))))
       * pow2 (max (binary_exponent x - 52) (- 1074))"
  by (simp add: round_to_double_def Let_def)

lemma round_to_double_nonneg: "0 \<le> x \<Longrightarrow> 0 \<le> round_to_double x"
proof (cases "x = 0")
  case True
  then show ?thesis by (simp add: round_to_double_def)
next
  case False
  assume "0 \<le> x"
  with False have x: "0 < x" by simp
  let ?q = "pow2 (max (binary_exponent x - 52) (- 1074))"
  have "0 \<le> x / ?q" using x pow2_pos [of "max (binary_exponent x - 52) (- 1074)"] by simp
  then have "0 \<le> round_half_even (x / ?q)"
    using round_half_even_ge [of 0 "x / ?q"] by simp
  then show ?thesis
    using pow2_pos [of "max (binary_exponent x - 52) (- 1074)"]
    by (simp add: round_to_double_pos [OF x])
qed

lemma round_to_double_mono_pos:
  assumes "0 < x" "x \<le> y"
  shows "round_to_double x \<le> round_to_double y"
proof -
  from assms have y: "0 < y" by simp
  let ?ex = "binary_exponent x" and ?ey = "binary_exponent y"
  let ?kx = "max (?ex - 52) (- 1074)" and ?ky = "max (?ey - 52) (- 1074)"
  have e: "?ex \<le> ?ey" by (rule binary_exponent_mono [OF assms])
  then have k: "?kx \<le> ?ky" by simp
  have rx: "round_to_double x = of_int (round_half_even (x / pow2 ?kx)) * pow2 ?kx"
    by (rule round_to_double_pos [OF assms(1)])
  have ry: "round_to_double y = of_int (round_half_even (y / pow2 ?ky)) * pow2 ?ky"
    by (rule round_to_double_pos [OF y])
  show ?thesis
  proof (cases "?kx = ?ky")
    case True
    have "x / pow2 ?ky \<le> y / pow2 ?ky"
      using assms(2) pow2_pos [of ?ky] by (simp add: divide_right_mono)
    then have "round_half_even (x / pow2 ?ky) \<le> round_half_even (y / pow2 ?ky)"
      by (rule round_half_even_mono)
    then have "(of_int (round_half_even (x / pow2 ?ky)) :: rat)
        \<le> of_int (round_half_even (y / pow2 ?ky))" by simp
    then show ?thesis
      unfolding rx ry True using pow2_pos [of ?ky] by (simp add: mult_right_mono)
  next
    case False
    from k False have lt: "?kx < ?ky" by (rule le_neq_trans)
    have ky: "?ky = ?ey - 52"
    proof (rule ccontr)
      assume "?ky \<noteq> ?ey - 52"
      then have "?ky = - 1074" by (simp add: max_def split: if_splits)
      moreover have "- 1074 \<le> ?kx" by (rule max.cobounded2)
      ultimately show False using lt by simp
    qed
    have bx: "x < pow2 (?ex + 1)" using binary_exponent_bounds [OF assms(1)] by simp
    have by': "pow2 ?ey \<le> y" using binary_exponent_bounds [OF y] by simp
    have lt': "?kx < ?ey - 52" using lt unfolding ky .
    have "?ex - 52 \<le> ?kx" by (rule max.cobounded1)
    from this lt' have "?ex - 52 < ?ey - 52" by (rule le_less_trans)
    then have "?ex + 1 \<le> ?ey" by simp
    then have "pow2 (?ex + 1) \<le> pow2 ?ey" by (rule pow2_mono)
    with bx have xe: "x \<le> pow2 ?ey" by simp
    \<comment> \<open>the power of two between them is a multiple of both quanta\<close>
    from lt' have dx: "0 \<le> ?ey - ?kx" by linarith
    have mx: "pow2 ?ey = of_int (2 ^ nat (?ey - ?kx)) * pow2 ?kx"
    proof -
      have "pow2 ?ey = pow2 (?ey - ?kx) * pow2 ?kx" by (simp flip: pow2_add)
      also have "pow2 (?ey - ?kx) = of_int (2 ^ nat (?ey - ?kx))"
        using dx by (simp add: pow2_def)
      finally show ?thesis .
    qed
    have my: "pow2 ?ey = of_int (2 ^ nat 52) * pow2 ?ky"
    proof -
      have "pow2 ?ey = pow2 52 * pow2 ?ky" unfolding ky by (simp flip: pow2_add)
      also have "pow2 52 = of_int (2 ^ nat 52)" by (simp add: pow2_def)
      finally show ?thesis .
    qed
    have "x / pow2 ?kx \<le> of_int (2 ^ nat (?ey - ?kx))"
      using xe pow2_pos [of ?kx] by (subst (asm) mx) (simp add: pos_divide_le_eq)
    then have "round_half_even (x / pow2 ?kx) \<le> 2 ^ nat (?ey - ?kx)"
      by (rule round_half_even_le)
    then have "(of_int (round_half_even (x / pow2 ?kx)) :: rat) \<le> of_int (2 ^ nat (?ey - ?kx))"
      by (simp only: of_int_le_iff)
    then have "round_to_double x \<le> pow2 ?ey"
      unfolding rx using pow2_pos [of ?kx] by (subst mx) (rule mult_right_mono, simp_all)
    moreover
    have "of_int (2 ^ nat 52) \<le> y / pow2 ?ky"
      using by' pow2_pos [of ?ky] by (subst (asm) my) (simp add: pos_le_divide_eq)
    then have "2 ^ nat 52 \<le> round_half_even (y / pow2 ?ky)"
      by (rule round_half_even_ge)
    then have "(of_int (2 ^ nat 52) :: rat) \<le> of_int (round_half_even (y / pow2 ?ky))"
      by (simp only: of_int_le_iff)
    then have "pow2 ?ey \<le> round_to_double y"
      unfolding ry using pow2_pos [of ?ky] by (subst my) (rule mult_right_mono, simp_all)
    ultimately show ?thesis by simp
  qed
qed

lemma round_to_double_mono:
  assumes "0 \<le> x" "x \<le> y"
  shows "round_to_double x \<le> round_to_double y"
proof (cases "x = 0")
  case True
  then show ?thesis using round_to_double_nonneg [of y] assms by (simp add: round_to_double_def)
next
  case False
  with assms(1) have "0 < x" by simp
  then show ?thesis using assms(2) by (rule round_to_double_mono_pos)
qed

lemma round_to_double_of_int:
  assumes "0 \<le> v" "v < 2 ^ 53"
  shows "round_to_double (of_int v) = of_int v"
proof (cases "v = 0")
  case True
  then show ?thesis by (simp add: round_to_double_def)
next
  case False
  with assms(1) have v: "0 < v" by simp
  then have x: "0 < (of_int v :: rat)" by simp
  let ?e = "binary_exponent (of_int v)"
  note b = binary_exponent_bounds [OF x]
  have "\<not> 53 \<le> ?e"
  proof
    assume "53 \<le> ?e"
    then have "pow2 53 \<le> pow2 ?e" by (rule pow2_mono)
    then have "pow2 53 \<le> (of_int v :: rat)" using b by simp
    moreover have "(of_int v :: rat) < of_int (2 ^ 53)" using assms(2) by (simp only: of_int_less_iff)
    ultimately show False by (simp add: pow2_def)
  qed
  then have hi: "?e \<le> 52" by simp
  have "\<not> ?e + 1 \<le> 0"
  proof
    assume "?e + 1 \<le> 0"
    then have "pow2 (?e + 1) \<le> pow2 0" by (rule pow2_mono)
    then have "(of_int v :: rat) < 1" using b by (simp add: pow2_def)
    with v show False by simp
  qed
  then have lo: "0 \<le> ?e" by simp
  from lo hi have k: "max (?e - 52) (- 1074) = ?e - 52" by simp
  let ?m = "nat (52 - ?e)"
  have q: "pow2 (?e - 52) = 1 / 2 ^ ?m"
  proof (cases "?e = 52")
    case True
    then show ?thesis by (simp add: pow2_def)
  next
    case False
    with hi have "\<not> 0 \<le> ?e - 52" by simp
    then show ?thesis by (simp add: pow2_def)
  qed
  have "of_int v / (1 / 2 ^ ?m) = (of_int (v * 2 ^ ?m) :: rat)" by simp
  then have "round_half_even (of_int v / (1 / 2 ^ ?m)) = v * 2 ^ ?m"
    by (simp only: round_half_even_of_int)
  then show ?thesis
    unfolding round_to_double_pos [OF x] k q by simp
qed

section \<open>The resolution scaler: properties\<close>

declare str_of_nonneg.simps [simp del]

lemma digit_cases:
  "0 \<le> d \<Longrightarrow> d < 10 \<Longrightarrow>
   d = 0 \<or> d = 1 \<or> d = 2 \<or> d = 3 \<or> d = 4 \<or> d = 5 \<or> d = 6 \<or> d = 7 \<or> d = 8 \<or> d = (9::int)"
  by arith

lemma digit_char_props:
  assumes "0 \<le> d" "d < 10"
  shows "is_digit (digit_char d)" "digit_value (digit_char d) = d"
    "\<not> is_space (digit_char d)" "digit_char d \<noteq> CHR ''k''" "digit_char d \<noteq> CHR ''_''"
    "digit_char d \<noteq> CHR ''-''" "digit_char d \<noteq> CHR ''+''"
  using digit_cases [OF assms]
  by (auto simp: digit_char_def is_digit_def digit_value_def is_space_def)

lemma str_of_nonneg_digits:
  "0 \<le> n \<Longrightarrow> str_of_nonneg n \<noteq> [] \<and> (\<forall>c \<in> set (str_of_nonneg n).
     is_digit c \<and> \<not> is_space c \<and> c \<noteq> CHR ''k'' \<and> c \<noteq> CHR ''_'' \<and> c \<noteq> CHR ''-'' \<and> c \<noteq> CHR ''+'')"
proof (induction n rule: str_of_nonneg.induct)
  case (1 n)
  show ?case
  proof (cases "n < 10")
    case True
    with 1(2) show ?thesis
      by (subst str_of_nonneg.simps, subst (2) str_of_nonneg.simps)
         (simp add: digit_char_props)
  next
    case False
    then have "0 \<le> n div 10" by simp
    note ih = 1(1) [OF False this]
    have d: "0 \<le> n mod 10" "n mod 10 < 10" by simp_all
    show ?thesis
      using False ih digit_char_props [OF d]
      by (subst str_of_nonneg.simps, subst (2) str_of_nonneg.simps) auto
  qed
qed

lemma value_str_of_nonneg:
  "0 \<le> n \<Longrightarrow> foldl (\<lambda>a c. 10 * a + digit_value c) 0 (str_of_nonneg n) = n"
proof (induction n rule: str_of_nonneg.induct)
  case (1 n)
  show ?case
  proof (cases "n < 10")
    case True
    with 1(2) show ?thesis
      by (subst str_of_nonneg.simps) (simp add: digit_char_props)
  next
    case False
    then have "0 \<le> n div 10" by simp
    note ih = 1(1) [OF False this]
    have d: "0 \<le> n mod 10" "n mod 10 < 10" by simp_all
    show ?thesis
      using False ih digit_char_props(2) [OF d]
      by (subst str_of_nonneg.simps) simp
  qed
qed

lemma split_acc_no_sep:
  "\<forall>c \<in> set s. c \<noteq> sep \<Longrightarrow> split_acc sep cur s = [cur @ s]"
  by (induction s arbitrary: cur) simp_all

lemma strip_no_space: "\<forall>c \<in> set s. \<not> is_space c \<Longrightarrow> strip s = s"
proof -
  assume a: "\<forall>c \<in> set s. \<not> is_space c"
  have "dropWhile is_space xs = xs" if "\<forall>c \<in> set xs. \<not> is_space c" for xs
    using that by (cases xs) simp_all
  from this [of s] this [of "rev s"] a show ?thesis by (simp add: strip_def)
qed

lemma py_int_digits:
  assumes "s \<noteq> []" "\<forall>c \<in> set s. is_digit c \<and> \<not> is_space c \<and> c \<noteq> CHR ''_'' \<and>
     c \<noteq> CHR ''-'' \<and> c \<noteq> CHR ''+''"
  shows "py_int s = Some (foldl (\<lambda>a c. 10 * a + digit_value c) 0 s)"
proof -
  have st: "strip s = s" using assms(2) by (intro strip_no_space) simp
  obtain c r where s: "s = c # r" using assms(1) by (cases s) auto
  have c: "c \<noteq> CHR ''-''" "c \<noteq> CHR ''+''" using assms(2) s by auto
  have sp: "split_on CHR ''_'' s = [s]"
    using assms(2) split_acc_no_sep [of s "CHR ''_''" "[]"] by (simp add: split_on_def)
  have dg: "isdigit s" using assms by (simp add: isdigit_def)
  have f: "filter (\<lambda>c. c \<noteq> CHR ''_'') s = s" using assms(2) by (simp add: filter_id_conv)
  show ?thesis
    unfolding py_int_def st Let_def
    using c sp dg f by (simp add: s)
qed

lemma py_int_rate:
  assumes "0 \<le> v"
  shows "py_int (remove_k (str_of_int v @ ''k'')) = Some v"
proof -
  note d = str_of_nonneg_digits [OF assms]
  have "remove_k (str_of_int v @ ''k'') = str_of_nonneg v"
    using assms d by (simp add: remove_k_def str_of_int_def filter_id_conv)
  moreover have "py_int (str_of_nonneg v) = Some v"
    using py_int_digits [of "str_of_nonneg v"] d value_str_of_nonneg [OF assms] by simp
  ultimately show ?thesis by simp
qed

lemma multiplier_constants:
  "round_to_double (7 / 10) = 3152519739159347 / 4503599627370496"
  "round_to_double (4 / 10) = 3602879701896397 / 9007199254740992"
  "round_to_double (2 / 5) = 3602879701896397 / 9007199254740992"
  by code_simp+

lemma resolution_multiplier_range:
  "0 \<le> resolution_multiplier p" "resolution_multiplier p \<le> 2"
  by (simp_all add: resolution_multiplier_def multiplier_constants)

lemma resolution_multiplier_mono:
  "p' \<le> p \<Longrightarrow> resolution_multiplier p' \<le> resolution_multiplier p"
  by (simp add: resolution_multiplier_def multiplier_constants)

lemma max_double_large: "2 ^ 53 \<le> max_double"
proof -
  have "(2::rat) ^ 53 \<le> 2 ^ 971" by (rule power_increasing) simp_all
  also have "\<dots> = 1 * 2 ^ 971" by simp
  also have "\<dots> \<le> (2 ^ 53 - 1) * 2 ^ 971" by (rule mult_right_mono) simp_all
  finally show ?thesis by (simp only: max_double_def)
qed

lemma round_to_double_le_int:
  assumes "0 \<le> x" "x \<le> of_int N" "N < 2 ^ 53"
  shows "round_to_double x \<le> of_int N"
proof -
  from assms(1,2) have "0 \<le> (of_int N :: rat)" by simp
  then have N: "0 \<le> N" by simp
  from round_to_double_mono [OF assms(1,2)] round_to_double_of_int [OF N assms(3)]
  show ?thesis by simp
qed

lemma round_to_double_ge_int:
  assumes "0 \<le> N" "of_int N \<le> x" "N < 2 ^ 53"
  shows "of_int N \<le> round_to_double x"
proof -
  have "0 \<le> (of_int N :: rat)" using assms(1) by simp
  from round_to_double_mono [OF this assms(2)] round_to_double_of_int [OF assms(1,3)]
  show ?thesis by simp
qed

lemma floor_two_int:
  "\<lfloor>2 * (of_int v :: rat)\<rfloor> = 2 * v" "\<lceil>2 * (of_int v :: rat)\<rceil> = 2 * v"
proof -
  have e: "2 * (of_int v :: rat) = of_int (2 * v)" by simp
  show "\<lfloor>2 * (of_int v :: rat)\<rfloor> = 2 * v" unfolding e by (rule floor_of_int)
  show "\<lceil>2 * (of_int v :: rat)\<rceil> = 2 * v" unfolding e by (rule ceiling_of_int)
qed

lemma product_range:
  fixes m :: rat
  assumes "0 \<le> v" "v < 2 ^ 52" "0 \<le> m" "m \<le> 2"
  shows "0 \<le> of_int v * m" "of_int v * m \<le> of_int (2 * v)" "2 * v < 2 ^ 53"
proof -
  have v: "0 \<le> (of_int v :: rat)" using assms(1) by simp
  show "0 \<le> of_int v * m" using v assms(3) by (rule mult_nonneg_nonneg)
  have "of_int v * m \<le> of_int v * 2" using assms(4) v by (rule mult_left_mono)
  then show "of_int v * m \<le> of_int (2 * v)" by simp
  show "2 * v < 2 ^ 53" using assms(2) by simp
qed

lemma fmul_small:
  fixes m :: rat
  assumes "0 \<le> v" "v < 2 ^ 52" "0 \<le> m" "m \<le> 2"
  shows "0 \<le> fmul (of_int v) m" "fmul (of_int v) m \<le> of_int (2 * v)"
    "of_int \<lfloor>of_int v * m\<rfloor> \<le> fmul (of_int v) m"
    "fmul (of_int v) m \<le> of_int \<lceil>of_int v * m\<rceil>"
proof -
  note r = product_range [OF assms]
  show "0 \<le> fmul (of_int v) m"
    unfolding fmul_def by (rule round_to_double_nonneg [OF r(1)])
  show "fmul (of_int v) m \<le> of_int (2 * v)"
    unfolding fmul_def by (rule round_to_double_le_int [OF r])
  have c: "\<lceil>of_int v * m\<rceil> \<le> 2 * v" using ceiling_mono [OF r(2)] by (simp add: floor_two_int)
  have f: "0 \<le> \<lfloor>of_int v * m\<rfloor>" using r(1) by simp
  have fl: "\<lfloor>of_int v * m\<rfloor> \<le> 2 * v" using floor_mono [OF r(2)] by (simp add: floor_two_int)
  show "of_int \<lfloor>of_int v * m\<rfloor> \<le> fmul (of_int v) m"
    unfolding fmul_def
  proof (rule round_to_double_ge_int [OF f])
    show "of_int \<lfloor>of_int v * m\<rfloor> \<le> of_int v * m" by simp
    show "\<lfloor>of_int v * m\<rfloor> < 2 ^ 53" by (rule le_less_trans [OF fl r(3)])
  qed
  show "fmul (of_int v) m \<le> of_int \<lceil>of_int v * m\<rceil>"
    unfolding fmul_def
  proof (rule round_to_double_le_int [OF r(1)])
    show "of_int v * m \<le> of_int \<lceil>of_int v * m\<rceil>" by simp
    show "\<lceil>of_int v * m\<rceil> < 2 ^ 53" by (rule le_less_trans [OF c r(3)])
  qed
qed

lemma float_of_small_int:
  assumes "0 \<le> v" "v < 2 ^ 52"
  shows "round_to_double (of_int v) = of_int v"
  using assms by (intro round_to_double_of_int) simp_all

lemma int_of_product_small:
  assumes "0 \<le> v" "v < 2 ^ 52"
  shows "int_of_product v (resolution_multiplier p) = Inr (scaled_rate p v)"
proof -
  let ?m = "resolution_multiplier p"
  note f = fmul_small [OF assms resolution_multiplier_range [of p]]
  have a: "round_to_double (of_int v) = of_int v" by (rule float_of_small_int [OF assms])
  have "(of_int v :: rat) < of_int (2 ^ 53)" using assms(2) by (simp only: of_int_less_iff) simp
  then have "(of_int v :: rat) \<le> max_double" using max_double_large by simp
  then have a_ok: "\<not> \<bar>of_int v :: rat\<bar> > max_double" using assms(1) by simp
  have "(of_int (2 * v) :: rat) < of_int (2 ^ 53)"
    using assms(2) by (simp only: of_int_less_iff) simp
  then have "fmul (of_int v) ?m \<le> max_double"
    using f(2) max_double_large by simp
  then have p_ok: "\<not> \<bar>fmul (of_int v) ?m\<bar> > max_double" using f(1) by simp
  show ?thesis
    using a_ok p_ok by (simp add: int_of_product_def scaled_rate_def a Let_def)
qed

lemma scaled_rate_eq:
  assumes "0 \<le> v" "v < 2 ^ 52"
  shows "scaled_rate p v = \<lfloor>fmul (of_int v) (resolution_multiplier p)\<rfloor>"
  using fmul_small(1) [OF assms resolution_multiplier_range [of p]]
  by (simp add: scaled_rate_def float_of_small_int [OF assms] py_trunc_def)

lemma scaled_rate_bounds:
  assumes "0 \<le> v" "v < 2 ^ 52"
  shows "\<lfloor>of_int v * resolution_multiplier p\<rfloor> \<le> scaled_rate p v"
    "scaled_rate p v \<le> \<lceil>of_int v * resolution_multiplier p\<rceil>"
    "0 \<le> scaled_rate p v" "scaled_rate p v \<le> 2 * v"
proof -
  note f = fmul_small [OF assms resolution_multiplier_range [of p]]
  show "\<lfloor>of_int v * resolution_multiplier p\<rfloor> \<le> scaled_rate p v"
    unfolding scaled_rate_eq [OF assms] using floor_mono [OF f(3)] by simp
  show "scaled_rate p v \<le> \<lceil>of_int v * resolution_multiplier p\<rceil>"
    unfolding scaled_rate_eq [OF assms] using floor_mono [OF f(4)] by simp
  show "0 \<le> scaled_rate p v"
    unfolding scaled_rate_eq [OF assms] using f(1) by simp
  show "scaled_rate p v \<le> 2 * v"
    unfolding scaled_rate_eq [OF assms] using floor_mono [OF f(2)] by (simp add: floor_two_int)
qed

lemma scaled_rate_exact:
  assumes "0 \<le> v" "v < 2 ^ 52"
  shows "3840 * 2160 \<le> p \<Longrightarrow> scaled_rate p v = 2 * v"
    "1920 * 1080 \<le> p \<Longrightarrow> p < 3840 * 2160 \<Longrightarrow> scaled_rate p v = v"
proof -
  have two: "round_to_double (of_int (2 * v)) = of_int (2 * v)"
    using assms by (intro round_to_double_of_int) simp_all
  have eq: "(of_int v :: rat) * 2 = of_int (2 * v)" by simp
  show "3840 * 2160 \<le> p \<Longrightarrow> scaled_rate p v = 2 * v"
    unfolding scaled_rate_eq [OF assms] resolution_multiplier_def fmul_def
    by (simp only: if_True eq two floor_of_int)
  show "1920 * 1080 \<le> p \<Longrightarrow> p < 3840 * 2160 \<Longrightarrow> scaled_rate p v = v"
    by (simp add: scaled_rate_eq [OF assms] resolution_multiplier_def fmul_def
        float_of_small_int [OF assms])
qed

lemma scaled_rate_mono:
  assumes "0 \<le> v" "v < 2 ^ 52" "p' \<le> p"
  shows "scaled_rate p' v \<le> scaled_rate p v"
proof -
  have v: "0 \<le> (of_int v :: rat)" using assms(1) by simp
  have "of_int v * resolution_multiplier p' \<le> of_int v * resolution_multiplier p"
    using resolution_multiplier_mono [OF assms(3)] v by (rule mult_left_mono)
  moreover have "0 \<le> of_int v * resolution_multiplier p'"
    using v resolution_multiplier_range(1) by simp
  ultimately have "fmul (of_int v) (resolution_multiplier p')
      \<le> fmul (of_int v) (resolution_multiplier p)"
    unfolding fmul_def by (intro round_to_double_mono)
  then show ?thesis
    unfolding scaled_rate_eq [OF assms(1,2)] by (rule floor_mono)
qed

lemma adjust_vbv_result:
  assumes "py_int (remove_k (vbv_maxrate settings)) = Some mr"
    and "py_int (remove_k (vbv_bufsize settings)) = Some bs"
    and "0 \<le> mr" "mr < 2 ^ 52" "0 \<le> bs" "bs < 2 ^ 52"
  shows "adjust_vbv_for_resolution settings info =
     Inr (settings \<lparr> vbv_maxrate := str_of_int (scaled_rate (pixel_count info) mr) @ ''k'',
                      vbv_bufsize := str_of_int (scaled_rate (pixel_count info) bs) @ ''k'' \<rparr>)"
  using assms(1,2)
  by (simp add: adjust_vbv_for_resolution_def Let_def
      int_of_product_small [OF assms(3,4)] int_of_product_small [OF assms(5,6)])

lemma catalog_rates:
  "py_int (remove_k (vbv_maxrate tier_conservative)) = Some 1200"
  "py_int (remove_k (vbv_bufsize tier_conservative)) = Some 2400"
  "py_int (remove_k (vbv_maxrate tier_conservative_42)) = Some 700"
  "py_int (remove_k (vbv_bufsize tier_conservative_42)) = Some 1400"
  by (simp_all add: tier_defs py_int_def remove_k_def strip_def is_space_def split_on_def
      isdigit_def is_digit_def digit_value_def)

lemma pixel_count_info_with_pixels: "pixel_count (info_with_pixels n) = n"
  by (simp add: info_with_pixels_def)

lemma scaled_rate_examples:
  "scaled_rate (1280 * 720) 700 = 489" "scaled_rate (1280 * 720) 1400 = 979"
  "scaled_rate (1280 * 720) 1200 = 840" "scaled_rate (640 * 480) 1200 = 480"
  "scaled_rate (3840 * 2160) 1200 = 2400" "scaled_rate (3840 * 2160) 2400 = 4800"
  by code_simp+

lemma str_of_int_examples:
  "str_of_int 489 = ''489''" "str_of_int 979 = ''979''"
  "str_of_int 2400 = ''2400''" "str_of_int 4800 = ''4800''"
  "str_of_int 1200 = ''1200''"
  by (simp_all add: str_of_int_def str_of_nonneg.simps digit_char_def)

subsection \<open>C6: the bands of the resolution scaler\<close>

text \<open>
  C6, as stated, fails in the 720p band: the scaler does not write the rate times 0.7
  but \<open>int(rate * 0.7)\<close>, the float product cut off to an integer. For the catalog
  entry conservative-42 (700k and 1400k) the float products are just below 490 and 980,
  and the scaler writes 489k and 979k.
\<close>

theorem scaler_720p_writes_less_than_product:
  "adjust_vbv_for_resolution tier_conservative_42 (info_with_pixels (1280 * 720))
     = Inr (tier_conservative_42 \<lparr> vbv_maxrate := ''489k'', vbv_bufsize := ''979k'' \<rparr>) \<and>
   (700::rat) * (7 / 10) = 490 \<and> (1400::rat) * (7 / 10) = 980"
proof -
  have "adjust_vbv_for_resolution tier_conservative_42 (info_with_pixels (1280 * 720))
     = Inr (tier_conservative_42
         \<lparr> vbv_maxrate := str_of_int (scaled_rate (1280 * 720) 700) @ ''k'',
           vbv_bufsize := str_of_int (scaled_rate (1280 * 720) 1400) @ ''k'' \<rparr>)"
    using adjust_vbv_result [OF catalog_rates(3,4), of "info_with_pixels (1280 * 720)"]
    by (simp only: pixel_count_info_with_pixels) simp
  then show ?thesis
    by (simp only: scaled_rate_examples str_of_int_examples) simp
qed

text \<open>
  C6, amended: for every base tier whose two rate bounds read as integers from 0 up to
  \<open>2 ^ 52\<close> (every catalog entry does), the scaler succeeds and replaces each bound
  \<open>v\<close> by \<open>int(v * m)\<close>, computed in float arithmetic with \<open>m\<close> = 2.0 for pixel
  counts of at least 3840*2160, 1.0 from 1920*1080, 0.7 from 1280*720 and 0.4 below. That
  number is exactly \<open>2 * v\<close> and \<open>v\<close> in the two upper bands; in the two lower
  bands it lies between the floor and the ceiling of \<open>v\<close> times the float 0.7 (0.4),
  so it can be one less than the decimal product. The scaler is idempotent in the 1080p
  band, and for the same base tier the scaled bounds do not increase when the pixel count
  goes down.
\<close>

theorem resolution_scaler_bands_and_order:
  fixes settings :: tier and info :: video_info and mr bs v p p' :: int
  assumes "py_int (remove_k (vbv_maxrate settings)) = Some mr"
    and "py_int (remove_k (vbv_bufsize settings)) = Some bs"
    and "0 \<le> mr" "mr < 2 ^ 52" "0 \<le> bs" "bs < 2 ^ 52" "0 \<le> v" "v < 2 ^ 52"
  shows "adjust_vbv_for_resolution settings info =
       Inr (settings \<lparr> vbv_maxrate := str_of_int (scaled_rate (pixel_count info) mr) @ ''k'',
                        vbv_bufsize := str_of_int (scaled_rate (pixel_count info) bs) @ ''k'' \<rparr>) \<and>
     (3840 * 2160 \<le> p \<longrightarrow> scaled_rate p v = 2 * v) \<and>
     (1920 * 1080 \<le> p \<and> p < 3840 * 2160 \<longrightarrow> scaled_rate p v = v) \<and>
     (1280 * 720 \<le> p \<and> p < 1920 * 1080 \<longrightarrow>
        \<lfloor>of_int v * (3152519739159347 / 4503599627370496 :: rat)\<rfloor> \<le> scaled_rate p v \<and>
        scaled_rate p v \<le> \<lceil>of_int v * (3152519739159347 / 4503599627370496 :: rat)\<rceil>) \<and>
     (p < 1280 * 720 \<longrightarrow>
        \<lfloor>of_int v * (3602879701896397 / 9007199254740992 :: rat)\<rfloor> \<le> scaled_rate p v \<and>
        scaled_rate p v \<le> \<lceil>of_int v * (3602879701896397 / 9007199254740992 :: rat)\<rceil>) \<and>
     (p' \<le> p \<longrightarrow> scaled_rate p' v \<le> scaled_rate p v) \<and>
     (1920 * 1080 \<le> pixel_count info \<and> pixel_count info < 3840 * 2160 \<longrightarrow>
        (\<forall>r. adjust_vbv_for_resolution settings info = Inr r \<longrightarrow>
             adjust_vbv_for_resolution r info = Inr r))"
proof -
  note res = adjust_vbv_result [OF assms(1-6), of info]
  note ex = scaled_rate_exact [OF assms(7,8), of p]
  note bd = scaled_rate_bounds(1,2) [OF assms(7,8), of p]
  have b07: "1280 * 720 \<le> p \<and> p < 1920 * 1080 \<longrightarrow>
        \<lfloor>of_int v * (3152519739159347 / 4503599627370496 :: rat)\<rfloor> \<le> scaled_rate p v \<and>
        scaled_rate p v \<le> \<lceil>of_int v * (3152519739159347 / 4503599627370496 :: rat)\<rceil>"
  proof
    assume "1280 * 720 \<le> p \<and> p < 1920 * 1080"
    then have "resolution_multiplier p = 3152519739159347 / 4503599627370496"
      by (simp add: resolution_multiplier_def multiplier_constants)
    with bd show "\<lfloor>of_int v * (3152519739159347 / 4503599627370496 :: rat)\<rfloor> \<le> scaled_rate p v \<and>
        scaled_rate p v \<le> \<lceil>of_int v * (3152519739159347 / 4503599627370496 :: rat)\<rceil>"
      by simp
  qed
  have b04: "p < 1280 * 720 \<longrightarrow>
        \<lfloor>of_int v * (3602879701896397 / 9007199254740992 :: rat)\<rfloor> \<le> scaled_rate p v \<and>
        scaled_rate p v \<le> \<lceil>of_int v * (3602879701896397 / 9007199254740992 :: rat)\<rceil>"
  proof
    assume "p < 1280 * 720"
    then have "resolution_multiplier p = 3602879701896397 / 9007199254740992"
      by (simp add: resolution_multiplier_def multiplier_constants)
    with bd show "\<lfloor>of_int v * (3602879701896397 / 9007199254740992 :: rat)\<rfloor> \<le> scaled_rate p v \<and>
        scaled_rate p v \<le> \<lceil>of_int v * (3602879701896397 / 9007199254740992 :: rat)\<rceil>"
      by simp
  qed
  have mono: "p' \<le> p \<longrightarrow> scaled_rate p' v \<le> scaled_rate p v"
    using scaled_rate_mono [OF assms(7,8)] by blast
  have idem: "1920 * 1080 \<le> pixel_count info \<and> pixel_count info < 3840 * 2160 \<longrightarrow>
        (\<forall>r. adjust_vbv_for_resolution settings info = Inr r \<longrightarrow>
             adjust_vbv_for_resolution r info = Inr r)"
  proof (intro impI allI)
    fix r
    assume band: "1920 * 1080 \<le> pixel_count info \<and> pixel_count info < 3840 * 2160"
      and r: "adjust_vbv_for_resolution settings info = Inr r"
    from band have sm: "scaled_rate (pixel_count info) mr = mr"
      and sb: "scaled_rate (pixel_count info) bs = bs"
      using scaled_rate_exact(2) [OF assms(3,4)] scaled_rate_exact(2) [OF assms(5,6)] by simp_all
    from r res have req: "r = settings \<lparr> vbv_maxrate := str_of_int mr @ ''k'',
        vbv_bufsize := str_of_int bs @ ''k'' \<rparr>"
      by (simp add: sm sb)
    have pm: "py_int (remove_k (vbv_maxrate r)) = Some mr"
      and pb: "py_int (remove_k (vbv_bufsize r)) = Some bs"
      using py_int_rate [OF assms(3)] py_int_rate [OF assms(5)] by (simp_all add: req)
    from adjust_vbv_result [OF pm pb assms(3-6), of info]
    show "adjust_vbv_for_resolution r info = Inr r"
      by (simp add: sm sb req)
  qed
  from res ex b07 b04 mono idem show ?thesis by blast
qed

theorem resolution_scaler_bands_and_order_witness:
  "adjust_vbv_for_resolution tier_conservative (info_with_pixels (3840 * 2160))
     = Inr (tier_conservative \<lparr> vbv_maxrate := ''2400k'', vbv_bufsize := ''4800k'' \<rparr>) \<and>
   adjust_vbv_for_resolution tier_conservative (info_with_pixels (1920 * 1080))
     = Inr tier_conservative \<and>
   scaled_rate (640 * 480) 1200 \<le> scaled_rate (1280 * 720) 1200 \<and>
   scaled_rate (1280 * 720) 1200 = 840 \<and> scaled_rate (640 * 480) 1200 = 480"
proof -
  have b: "(0::int) \<le> 1200" "(1200::int) < 2 ^ 52" "(0::int) \<le> 2400" "(2400::int) < 2 ^ 52"
    by simp_all
  note t4k = resolution_scaler_bands_and_order
    [OF catalog_rates(1,2) b b(1,2), of "info_with_pixels (3840 * 2160)" "1280 * 720" "640 * 480"]
  note t1080 = resolution_scaler_bands_and_order
    [OF catalog_rates(1,2) b b(1,2), of "info_with_pixels (1920 * 1080)" "1280 * 720" "640 * 480"]
  from t4k have a4k: "adjust_vbv_for_resolution tier_conservative (info_with_pixels (3840 * 2160))
     = Inr (tier_conservative
         \<lparr> vbv_maxrate := str_of_int (scaled_rate (pixel_count (info_with_pixels (3840 * 2160))) 1200) @ ''k'',
           vbv_bufsize := str_of_int (scaled_rate (pixel_count (info_with_pixels (3840 * 2160))) 2400) @ ''k'' \<rparr>)"
    by (rule conjunct1)
  have r4k: "adjust_vbv_for_resolution tier_conservative (info_with_pixels (3840 * 2160))
     = Inr (tier_conservative \<lparr> vbv_maxrate := ''2400k'', vbv_bufsize := ''4800k'' \<rparr>)"
    using a4k
    by (simp only: pixel_count_info_with_pixels scaled_rate_examples str_of_int_examples) simp
  from t1080 have a1080:
    "adjust_vbv_for_resolution tier_conservative (info_with_pixels (1920 * 1080))
     = Inr (tier_conservative
         \<lparr> vbv_maxrate := str_of_int (scaled_rate (pixel_count (info_with_pixels (1920 * 1080))) 1200) @ ''k'',
           vbv_bufsize := str_of_int (scaled_rate (pixel_count (info_with_pixels (1920 * 1080))) 2400) @ ''k'' \<rparr>)"
    by (rule conjunct1)
  have s1080: "scaled_rate (1920 * 1080) 1200 = 1200" "scaled_rate (1920 * 1080) 2400 = 2400"
    by code_simp+
  have r1080: "adjust_vbv_for_resolution tier_conservative (info_with_pixels (1920 * 1080))
     = Inr tier_conservative"
    using a1080
    by (simp only: pixel_count_info_with_pixels s1080 str_of_int_examples)
       (simp add: tier_defs)
  from t4k have m: "scaled_rate (640 * 480) 1200 \<le> scaled_rate (1280 * 720) 1200" by simp
  from r4k r1080 m scaled_rate_examples(3,4) show ?thesis by blast
qed

end
